theory Spec2Isabelle
  imports Main
begin

section \<open>Data model\<close>

text \<open>
  The codec of \<^verbatim>\<open>src/index.ts\<close>. A JavaScript string is modelled as a \<^typ>\<open>string\<close>: a list of
  characters with codes 0..255, one character per code unit, so that the length of the list is
  the \<^verbatim>\<open>length\<close> of the string and a \<^verbatim>\<open>for (const ch of text)\<close> loop visits its elements in
  order. Both alphabets of the codec are ASCII; texts with characters beyond code 255 are not
  covered. A \<^verbatim>\<open>bigint\<close> is an \<^typ>\<open>int\<close>, a
  \<^verbatim>\<open>Uint8Array\<close> a list of naturals below 256 (every store into it goes through \<open>toUint8\<close>), an
  optional parameter an \<^typ>\<open>'a option\<close>.

  The source raises plain \<^verbatim>\<open>Error\<close> objects that differ in their message only. Each raise site
  is one constructor, named after the error class the specification gives it:
  \<^item> \<open>OverflowError n w\<close>: \<^verbatim>\<open>Encoded value length (n) exceeds fixed length w\<close> (leftPad);
  \<^item> \<open>DomainError\<close>: \<^verbatim>\<open>negative bigint is not supported\<close> (bigIntToBytes);
  \<^item> \<open>LengthExceededError\<close>: \<^verbatim>\<open>decoded bytes exceed fixed length\<close> (bigIntToBytes);
  \<^item> \<open>InvalidCharacterError ch\<close>: \<^verbatim>\<open>invalid character "ch"\<close> (decodeToBigInt) and
    \<^verbatim>\<open>Invalid ULID char: ch\<close> (encodeULID);
  \<^item> \<open>LengthMismatchError\<close>: \<^verbatim>\<open>Expected 11 chars for Base60 Int64\<close> (decodeInt64) and
    \<^verbatim>\<open>Expected 22-char Base60 ULID\<close> (decodeULID);
  \<^item> \<open>FormatError\<close>: \<^verbatim>\<open>invalid UUID\<close> (encodeUUID) and \<^verbatim>\<open>Invalid ULID format\<close> (encodeULID).
\<close>

datatype error =
    OverflowError nat nat
  | DomainError
  | LengthExceededError
  | InvalidCharacterError char
  | LengthMismatchError
  | FormatError

definition FIXED_LEN_UUID :: nat where
  "FIXED_LEN_UUID = 22"

definition FIXED_LEN_ULID :: nat where
  "FIXED_LEN_ULID = 22"

definition FIXED_LEN_INT64 :: nat where
  "FIXED_LEN_INT64 = 11"

definition alphabet :: string where
  "alphabet = ''0123456789ABCDEFGHIJKLMNPQRSTUVWXYZabcdefghijkmnopqrstuvwxyz''"

definition crockford :: string where
  "crockford = ''0123456789ABCDEFGHJKMNPQRSTVWXYZ''"

section \<open>The JavaScript built-ins the codec calls\<close>

text \<open>\<^verbatim>\<open>s.padStart(n, c)\<close> with a one-character filler: a string already \<open>n\<close> long or longer is
  returned unchanged.\<close>

definition padStart :: "nat \<Rightarrow> char \<Rightarrow> string \<Rightarrow> string" where
  "padStart n c s = replicate (n - length s) c @ s"

text \<open>\<^verbatim>\<open>s.substr(start, len)\<close> and \<^verbatim>\<open>s.slice(from, to)\<close> for non-negative arguments: both stop at
  the end of the string.\<close>

definition substr :: "string \<Rightarrow> nat \<Rightarrow> nat \<Rightarrow> string" where
  "substr s start len = take len (drop start s)"

definition slice :: "string \<Rightarrow> nat \<Rightarrow> nat \<Rightarrow> string" where
  "slice s from to = take (to - from) (drop from s)"

text \<open>\<^verbatim>\<open>n.toString(radix)\<close> for a non-negative integer \<open>n\<close> (a bigint or an integral number):
  lower-case digits, no leading zero, \<^verbatim>\<open>"0"\<close> for zero. The codec calls it with radix 16 and 2
  only, and never on a negative \<open>n\<close>.\<close>

definition digitChars :: string where
  "digitChars = ''0123456789abcdefghijklmnopqrstuvwxyz''"

function toStringRadix :: "nat \<Rightarrow> int \<Rightarrow> string" where
  "toStringRadix radix n =
     (if n < int radix then [digitChars ! nat n]
      else if radix < 2 then []
      else toStringRadix radix (n div int radix) @ [digitChars ! nat (n mod int radix)])"
  by pat_completeness auto
termination
  by (relation "measure (\<lambda>(radix, n). nat n)") (auto intro!: int_div_less_self)

text \<open>\<^verbatim>\<open>parseInt(s, radix)\<close>: leading white space is skipped, then an optional sign, then
  (radix 16 only) an optional \<^verbatim>\<open>0x\<close>; the longest run of digits of the radix is read, and the
  result is NaN (\<open>None\<close>) when that run is empty.\<close>

definition isStrWhiteSpaceChar :: "char \<Rightarrow> bool" where
  "isStrWhiteSpaceChar c \<longleftrightarrow>
     c \<in> set [CHR 0x09, CHR 0x0A, CHR 0x0B, CHR 0x0C, CHR 0x0D, CHR 0x20, CHR 0xA0]"

definition digitValue :: "char \<Rightarrow> nat option" where
  "digitValue c =
     (let k = of_char c :: nat in
      if 48 \<le> k \<and> k \<le> 57 then Some (k - 48)
      else if 97 \<le> k \<and> k \<le> 122 then Some (k - 87)
      else if 65 \<le> k \<and> k \<le> 90 then Some (k - 55)
      else None)"

definition isRadixDigit :: "nat \<Rightarrow> char \<Rightarrow> bool" where
  "isRadixDigit radix c = (case digitValue c of None \<Rightarrow> False | Some d \<Rightarrow> d < radix)"

definition digitsToNat :: "nat \<Rightarrow> string \<Rightarrow> nat" where
  "digitsToNat radix z = fold (\<lambda>c acc. acc * radix + the (digitValue c)) z 0"

definition parseInt :: "string \<Rightarrow> nat \<Rightarrow> int option" where
  "parseInt s radix =
     (let s1 = dropWhile isStrWhiteSpaceChar s;
          sign = (if s1 \<noteq> [] \<and> hd s1 = CHR ''-'' then - 1 else 1 :: int);
          s2 = (if s1 \<noteq> [] \<and> (hd s1 = CHR ''+'' \<or> hd s1 = CHR ''-'') then tl s1 else s1);
          s3 = (if radix = 16 \<and> (take 2 s2 = ''0x'' \<or> take 2 s2 = ''0X'') then drop 2 s2 else s2);
          z = takeWhile (isRadixDigit radix) s3
      in if z = [] then None else Some (sign * int (digitsToNat radix z)))"

text \<open>Storing a number into a \<^verbatim>\<open>Uint8Array\<close> slot: NaN becomes 0, an integer is reduced
  modulo 256.\<close>

definition toUint8 :: "int option \<Rightarrow> nat" where
  "toUint8 x = (case x of None \<Rightarrow> 0 | Some n \<Rightarrow> nat (n mod 256))"

text \<open>\<^verbatim>\<open>s[k]\<close> appended to a string, where \<open>k\<close> is a number: a character of \<open>s\<close> when \<open>k\<close> is an
  index of it, and the text \<^verbatim>\<open>undefined\<close> otherwise.\<close>

definition indexText :: "string \<Rightarrow> int option \<Rightarrow> string" where
  "indexText s k =
     (case k of
        None \<Rightarrow> ''undefined''
      | Some i \<Rightarrow> if 0 \<le> i \<and> nat i < length s then [s ! nat i] else ''undefined'')"

text \<open>\<^verbatim>\<open>s.toUpperCase()\<close> on the ASCII letters. The codec applies it only to a string that has
  passed the ULID pattern, which holds ASCII digits and letters only.\<close>

definition toUpperChar :: "char \<Rightarrow> char" where
  "toUpperChar c =
     (let k = of_char c :: nat in if 97 \<le> k \<and> k \<le> 122 then char_of (k - 32) else c)"

definition toUpperCase :: "string \<Rightarrow> string" where
  "toUpperCase s = map toUpperChar s"

section \<open>The numeral converter\<close>

definition base :: int where
  "base = int (length alphabet)"

text \<open>The lookup table filled by the loop \<^verbatim>\<open>charToValue.set(alphabet[i], BigInt(i))\<close>.\<close>

definition charToValue :: "char \<rightharpoonup> int" where
  "charToValue = fold (\<lambda>i m. m(alphabet ! i \<mapsto> int i)) [0..<length alphabet] Map.empty"

definition leftPad :: "string \<Rightarrow> nat \<Rightarrow> error + string" where
  "leftPad text len =
     (if length text > len then Inl (OverflowError (length text) len)
      else Inr (padStart len (alphabet ! 0) text))"

definition bytesToBigInt :: "nat list \<Rightarrow> int" where
  "bytesToBigInt bytes = fold (\<lambda>b result. push_bit 8 result + int b) bytes 0"

definition bigIntToBytes :: "int \<Rightarrow> nat option \<Rightarrow> error + nat list" where
  "bigIntToBytes v fixedLength =
     (if v < 0 then Inl DomainError
      else
        let hex0 = toStringRadix 16 v;
            hex = (if length hex0 mod 2 = 1 then CHR ''0'' # hex0 else hex0);
            bytes = map (\<lambda>i. toUint8 (parseInt (substr hex (i * 2) 2) 16)) [0..<length hex div 2]
        in case fixedLength of
             None \<Rightarrow> Inr bytes
           | Some n \<Rightarrow>
               if length bytes > n then Inl LengthExceededError
               else Inr (replicate (n - length bytes) 0 @ bytes))"

text \<open>The \<^verbatim>\<open>while (v > 0n)\<close> loop of encodeBigInt. Inside the loop \<open>v\<close> is positive, where the
  truncating \<^verbatim>\<open>%\<close> and \<^verbatim>\<open>/\<close> of bigints are \<open>mod\<close> and \<open>div\<close>.\<close>

function encodeLoop :: "int \<Rightarrow> string \<Rightarrow> string" where
  "encodeLoop v out =
     (if v > 0 then encodeLoop (v div base) (alphabet ! nat (v mod base) # out) else out)"
  by pat_completeness auto
termination
  by (relation "measure (\<lambda>(v, out). nat v)") (auto simp: base_def alphabet_def)

definition encodeBigInt :: "int \<Rightarrow> nat option \<Rightarrow> error + string" where
  "encodeBigInt v padLength =
     (if v = 0 then
        (case padLength of
           Some n \<Rightarrow> leftPad [alphabet ! 0] n
         | None \<Rightarrow> Inr [alphabet ! 0])
      else
        let out = encodeLoop v [] in
        (case padLength of
           Some n \<Rightarrow> leftPad out n
         | None \<Rightarrow> Inr out))"

fun decodeLoop :: "string \<Rightarrow> int \<Rightarrow> error + int" where
  "decodeLoop [] v = Inr v"
| "decodeLoop (ch # rest) v =
     (case charToValue ch of
        None \<Rightarrow> Inl (InvalidCharacterError ch)
      | Some d \<Rightarrow> decodeLoop rest (v * base + d))"

definition decodeToBigInt :: "string \<Rightarrow> error + int" where
  "decodeToBigInt text = decodeLoop text 0"

section \<open>The fixed-width adapters\<close>

text \<open>encodeInt64 takes a \<^verbatim>\<open>number | bigint\<close> and converts it with \<^verbatim>\<open>BigInt(value)\<close> first; the
  model takes that integer.\<close>

definition encodeInt64 :: "int \<Rightarrow> error + string" where
  "encodeInt64 v =
     (case encodeBigInt v None of
        Inl e \<Rightarrow> Inl e
      | Inr s \<Rightarrow> leftPad s FIXED_LEN_INT64)"

definition decodeInt64 :: "string \<Rightarrow> error + int" where
  "decodeInt64 text =
     (if length text \<noteq> FIXED_LEN_INT64 then Inl LengthMismatchError else decodeToBigInt text)"

definition encodeUUID :: "string \<Rightarrow> error + string" where
  "encodeUUID uuid =
     (let hex = filter (\<lambda>c. c \<noteq> CHR ''-'') uuid in
      if length hex \<noteq> 32 then Inl FormatError
      else
        let bytes = map (\<lambda>i. toUint8 (parseInt (substr hex (i * 2) 2) 16)) [0..<16] in
        (case encodeBigInt (bytesToBigInt bytes) None of
           Inl e \<Rightarrow> Inl e
         | Inr s \<Rightarrow> leftPad s FIXED_LEN_UUID))"

definition decodeUUID :: "string \<Rightarrow> error + string" where
  "decodeUUID text =
     (case decodeToBigInt text of
        Inl e \<Rightarrow> Inl e
      | Inr v \<Rightarrow>
          (case bigIntToBytes v (Some 16) of
             Inl e \<Rightarrow> Inl e
           | Inr bytes \<Rightarrow>
               let hex = concat (map (\<lambda>b. padStart 2 (CHR ''0'') (toStringRadix 16 (int b))) bytes) in
               Inr (slice hex 0 8 @ ''-'' @ slice hex 8 12 @ ''-'' @ slice hex 12 16 @ ''-''
                    @ slice hex 16 20 @ ''-'' @ drop 20 hex)))"

text \<open>The pattern \<^verbatim>\<open>/^[0-9A-HJKMNP-TV-Z]{26}$/i\<close>: exactly 26 characters, each a digit or one of
  the letters of the classes, in either case. The table \<open>map32\<close> is the one the loop
  \<^verbatim>\<open>map32.set(crockford[i], i)\<close> fills.\<close>

definition ulidPatternChar :: "char \<Rightarrow> bool" where
  "ulidPatternChar c \<longleftrightarrow>
     c \<in> set ''0123456789ABCDEFGHJKMNPQRSTVWXYZabcdefghjkmnpqrstvwxyz''"

definition ulidPattern :: "string \<Rightarrow> bool" where
  "ulidPattern s \<longleftrightarrow> length s = 26 \<and> list_all ulidPatternChar s"

definition map32 :: "char \<rightharpoonup> nat" where
  "map32 = fold (\<lambda>i m. m(crockford ! i \<mapsto> i)) [0..<length crockford] Map.empty"

fun ulidLoop :: "string \<Rightarrow> int \<Rightarrow> error + int" where
  "ulidLoop [] acc = Inr acc"
| "ulidLoop (ch # rest) acc =
     (case map32 ch of
        None \<Rightarrow> Inl (InvalidCharacterError ch)
      | Some d \<Rightarrow> ulidLoop rest (push_bit 5 acc + int d))"

definition encodeULID :: "string \<Rightarrow> error + string" where
  "encodeULID ulid =
     (if \<not> ulidPattern ulid then Inl FormatError
      else
        (case ulidLoop (toUpperCase ulid) 0 of
           Inl e \<Rightarrow> Inl e
         | Inr v \<Rightarrow>
             (case encodeBigInt v None of
                Inl e \<Rightarrow> Inl e
              | Inr raw \<Rightarrow> leftPad raw FIXED_LEN_ULID)))"

definition decodeULID :: "string \<Rightarrow> error + string" where
  "decodeULID text =
     (if length text \<noteq> 22 then Inl LengthMismatchError
      else
        (case decodeToBigInt text of
           Inl e \<Rightarrow> Inl e
         | Inr v \<Rightarrow>
             (case bigIntToBytes v (Some 16) of
                Inl e \<Rightarrow> Inl e
              | Inr bytes \<Rightarrow>
                  let bits = fold (\<lambda>b acc. acc @ padStart 8 (CHR ''0'') (toStringRadix 2 (int b))) bytes [];
                      padded = padStart 130 (CHR ''0'') bits
                  in Inr (fold (\<lambda>i acc. acc @ indexText crockford
                                   (parseInt (slice padded (i * 5) (i * 5 + 5)) 2))
                            [0..<26] []))))"

section \<open>Validation and ordering\<close>

definition compareAsBigInt :: "string \<Rightarrow> string \<Rightarrow> error + int" where
  "compareAsBigInt a b =
     (case decodeToBigInt a of
        Inl e \<Rightarrow> Inl e
      | Inr ai \<Rightarrow>
          (case decodeToBigInt b of
             Inl e \<Rightarrow> Inl e
           | Inr bi \<Rightarrow> Inr (if ai < bi then - 1 else if ai > bi then 1 else 0)))"

fun isValidBase60 :: "string \<Rightarrow> bool" where
  "isValidBase60 [] = True"
| "isValidBase60 (ch # rest) = (if ch \<notin> set alphabet then False else isValidBase60 rest)"

section \<open>Notions of the specification\<close>

text \<open>The order of the alphabet's symbols: the rank of a symbol is its position in the alphabet
  (\<^verbatim>\<open>alphabet.indexOf\<close>), and two strings are compared lexicographically by the ranks of their
  symbols, with the result -1, 0 or 1.\<close>

definition symbolRank :: "char \<Rightarrow> nat" where
  "symbolRank c = length (takeWhile (\<lambda>x. x \<noteq> c) alphabet)"

fun lexCompare :: "string \<Rightarrow> string \<Rightarrow> int" where
  "lexCompare [] [] = 0"
| "lexCompare [] (y # ys) = - 1"
| "lexCompare (x # xs) [] = 1"
| "lexCompare (x # xs) (y # ys) =
     (if symbolRank x < symbolRank y then - 1
      else if symbolRank y < symbolRank x then 1
      else lexCompare xs ys)"

text \<open>The minimal representation of \<open>v\<close>: a non-empty string of alphabet symbols that decodes to
  \<open>v\<close> and has no superfluous leading zero-symbol (zero is the single zero-symbol).\<close>

definition isMinimalRepresentation :: "string \<Rightarrow> int \<Rightarrow> bool" where
  "isMinimalRepresentation s v \<longleftrightarrow>
     s \<noteq> [] \<and> isValidBase60 s \<and> decodeToBigInt s = Inr v \<and>
     (if v = 0 then s = [alphabet ! 0] else hd s \<noteq> alphabet ! 0)"

text \<open>The canonical text of a UUID: 36 characters, hyphens at positions 8, 13, 18 and 23 and
  hexadecimal digits of either case everywhere else.\<close>

definition isHexChar :: "char \<Rightarrow> bool" where
  "isHexChar c \<longleftrightarrow> c \<in> set ''0123456789abcdefABCDEF''"

definition isValidUUID :: "string \<Rightarrow> bool" where
  "isValidUUID u \<longleftrightarrow>
     length u = 36 \<and>
     list_all (\<lambda>i. if i \<in> set [8, 13, 18, 23] then u ! i = CHR ''-'' else isHexChar (u ! i)) [0..<36]"

definition toLowerChar :: "char \<Rightarrow> char" where
  "toLowerChar c =
     (let k = of_char c :: nat in if 65 \<le> k \<and> k \<le> 90 then char_of (k + 32) else c)"

definition toLowerCase :: "string \<Rightarrow> string" where
  "toLowerCase s = map toLowerChar s"

text \<open>The canonical text of a ULID: 26 Crockford symbols in either case. It is a 128-bit value
  when the first symbol, which carries the bits 129 to 125, is one of 0 to 7.\<close>

definition isCrockfordChar :: "char \<Rightarrow> bool" where
  "isCrockfordChar c \<longleftrightarrow> toUpperChar c \<in> set crockford"

definition isValidULID :: "string \<Rightarrow> bool" where
  "isValidULID u \<longleftrightarrow>
     length u = 26 \<and> list_all isCrockfordChar u \<and> hd u \<in> set ''01234567''"

section \<open>Positional values\<close>

text \<open>The value of a digit list in base \<open>b\<close>, most significant digit first. Every loop of the
  codec that reads digits computes it.\<close>

definition positional :: "int \<Rightarrow> int list \<Rightarrow> int" where
  "positional b ds = fold (\<lambda>d acc. acc * b + d) ds 0"

text \<open>Two auxiliary notions for the proofs: the value of a digit character as an integer, and
  the bytes spelled by a string of hexadecimal digits taken two at a time.\<close>

definition digitInt :: "char \<Rightarrow> int" where
  "digitInt c = int (the (digitValue c))"

fun pairBytes :: "string \<Rightarrow> nat list" where
  "pairBytes (a # b # rest) = (the (digitValue a) * 16 + the (digitValue b)) # pairBytes rest"
| "pairBytes rest = []"

text \<open>Two more for the ULID adapter: the value of a Crockford symbol as an integer, and the
  values of a string of binary digits taken five at a time.\<close>

definition crockfordInt :: "char \<Rightarrow> int" where
  "crockfordInt c = int (the (map32 c))"

fun groups5 :: "string \<Rightarrow> int list" where
  "groups5 (a # b # c # d # e # rest) = positional 2 (map digitInt [a, b, c, d, e]) # groups5 rest"
| "groups5 rest = []"

section \<open>The alphabet and its lookup table\<close>

lemma length_alphabet: "length alphabet = 60"
  by (simp add: alphabet_def)

lemma base_eq: "base = 60"
  by (simp add: base_def length_alphabet)

lemma distinct_alphabet: "distinct alphabet"
  by (simp add: alphabet_def)

lemma table_nth:
  "distinct xs \<Longrightarrow> n \<le> length xs \<Longrightarrow> j < n \<Longrightarrow>
   fold (\<lambda>i m. m(xs ! i \<mapsto> f i)) [0..<n] Map.empty (xs ! j) = Some (f j)"
proof (induction n)
  case 0
  then show ?case by simp
next
  case (Suc n)
  show ?case
  proof (cases "j = n")
    case True
    then show ?thesis by simp
  next
    case False
    with Suc.prems have "j < n" "xs ! n \<noteq> xs ! j"
      by (auto simp: nth_eq_iff_index_eq)
    with Suc show ?thesis by simp
  qed
qed

lemma table_None:
  "n \<le> length xs \<Longrightarrow> c \<notin> set xs \<Longrightarrow>
   fold (\<lambda>i m. m(xs ! i \<mapsto> f i)) [0..<n] Map.empty c = None"
  by (induction n) auto

lemma charToValue_nth: "i < 60 \<Longrightarrow> charToValue (alphabet ! i) = Some (int i)"
  unfolding charToValue_def
  using table_nth [OF distinct_alphabet, of 60 i int] by (simp add: length_alphabet)

lemma charToValue_None: "c \<notin> set alphabet \<Longrightarrow> charToValue c = None"
  unfolding charToValue_def by (rule table_None) simp

lemma charToValue_cases:
  "(c \<notin> set alphabet \<and> charToValue c = None) \<or>
   (\<exists>i<60. c = alphabet ! i \<and> charToValue c = Some (int i))"
proof (cases "c \<in> set alphabet")
  case True
  then obtain i where "i < 60" "c = alphabet ! i"
    by (auto simp: in_set_conv_nth length_alphabet)
  then show ?thesis using charToValue_nth by blast
next
  case False
  then show ?thesis by (simp add: charToValue_None)
qed

section \<open>Encoding and decoding integers\<close>

declare encodeLoop.simps [simp del]

lemma decode_encodeLoop:
  "0 \<le> v \<Longrightarrow> decodeLoop (encodeLoop v out) 0 = decodeLoop out v"
proof (induction v out rule: encodeLoop.induct)
  case (1 v out)
  show ?case
  proof (cases "v > 0")
    case True
    have m: "nat (v mod 60) < 60" using True by simp
    have "decodeLoop (encodeLoop v out) 0 = decodeLoop (alphabet ! nat (v mod 60) # out) (v div 60)"
      using True "1.IH" by (subst encodeLoop.simps) (simp add: base_eq)
    also have "\<dots> = decodeLoop out (v div 60 * 60 + v mod 60)"
      using charToValue_nth [OF m] True by (simp add: base_eq)
    finally show ?thesis by simp
  next
    case False
    with "1.prems" have "v = 0" by simp
    then show ?thesis by (subst encodeLoop.simps) simp
  qed
qed

text \<open>
  C1. For every non-negative integer \<open>v\<close>, encodeBigInt without a width returns a string, and
  decodeToBigInt of that string is \<open>v\<close> again: repeated division by 60 and Horner evaluation are
  inverse to each other at every magnitude.
\<close>

theorem encodeBigInt_roundtrip:
  "0 \<le> v \<Longrightarrow> \<exists>s. encodeBigInt v None = Inr s \<and> decodeToBigInt s = Inr v"
proof (cases "v = 0")
  case True
  then show ?thesis
    using charToValue_nth [of 0] by (simp add: encodeBigInt_def decodeToBigInt_def base_eq)
next
  case False
  assume "0 \<le> v"
  then show ?thesis
    using False decode_encodeLoop [of v "[]"] by (simp add: encodeBigInt_def decodeToBigInt_def)
qed

theorem encodeBigInt_roundtrip_witness:
  "(0::int) \<le> 2 ^ 200 - 1 \<and>
   (\<exists>s. encodeBigInt (2 ^ 200 - 1) None = Inr s \<and> decodeToBigInt s = Inr (2 ^ 200 - 1))"
  using encodeBigInt_roundtrip [of "2 ^ 200 - 1"] by simp

section \<open>Positional values of digit lists\<close>

lemma fold_positional:
  "fold (\<lambda>d acc. acc * b + d) ds a = a * b ^ length ds + positional b ds"
proof (induction ds arbitrary: a)
  case Nil
  then show ?case by (simp add: positional_def)
next
  case (Cons d ds)
  have "fold (\<lambda>d acc. acc * b + d) (d # ds) a = (a * b + d) * b ^ length ds + positional b ds"
    using Cons.IH [of "a * b + d"] by simp
  moreover have "positional b (d # ds) = d * b ^ length ds + positional b ds"
    using Cons.IH [of d] by (simp add: positional_def)
  ultimately show ?case by (simp add: algebra_simps)
qed

lemma positional_Nil [simp]: "positional b [] = 0"
  by (simp add: positional_def)

lemma positional_Cons: "positional b (d # ds) = d * b ^ length ds + positional b ds"
  using fold_positional [of b ds d] by (simp add: positional_def)

lemma positional_append:
  "positional b (ds @ es) = positional b ds * b ^ length es + positional b es"
  using fold_positional [of b es "positional b ds"] by (simp add: positional_def)

lemma positional_replicate_zero [simp]: "positional b (replicate n 0 @ ds) = positional b ds"
  by (induction n) (simp_all add: positional_Cons)

lemma step_less:
  fixes d e p q B :: int
  assumes "0 \<le> p" "p < B" "0 \<le> q" "d < e"
  shows "d * B + p < e * B + q"
proof -
  have "0 \<le> B" using assms by simp
  have "d + 1 \<le> e" using assms by simp
  then have "(d + 1) * B \<le> e * B" using \<open>0 \<le> B\<close> by (rule mult_right_mono)
  moreover have "d * B + p < (d + 1) * B" using assms by (simp add: algebra_simps)
  ultimately show ?thesis using assms by linarith
qed

lemma positional_bounds:
  "0 < b \<Longrightarrow> \<forall>d\<in>set ds. 0 \<le> d \<and> d < b \<Longrightarrow>
   0 \<le> positional b ds \<and> positional b ds < b ^ length ds"
proof (induction ds)
  case Nil
  then show ?case by simp
next
  case (Cons d ds)
  then have ih: "0 \<le> positional b ds" "positional b ds < b ^ length ds" and d: "0 \<le> d" "d < b"
    by simp_all
  have "d * b ^ length ds + positional b ds < b * b ^ length ds + 0"
    using ih d by (intro step_less) simp_all
  moreover have "0 \<le> d * b ^ length ds" using d Cons.prems(1) by simp
  ultimately show ?case using ih by (simp add: positional_Cons)
qed

lemma positional_inj:
  "length ds = length es \<Longrightarrow> 0 < b \<Longrightarrow> \<forall>d\<in>set ds. 0 \<le> d \<and> d < b \<Longrightarrow>
   \<forall>d\<in>set es. 0 \<le> d \<and> d < b \<Longrightarrow> positional b ds = positional b es \<Longrightarrow> ds = es"
proof (induction ds es rule: list_induct2)
  case Nil
  then show ?case by simp
next
  case (Cons d ds e es)
  have bd: "0 \<le> positional b ds" "positional b ds < b ^ length ds"
    using positional_bounds [of b ds] Cons.prems by simp_all
  have be: "0 \<le> positional b es" "positional b es < b ^ length ds"
    using positional_bounds [of b es] Cons.prems Cons.hyps by simp_all
  have eq: "d * b ^ length ds + positional b ds = e * b ^ length ds + positional b es"
    using Cons.prems(4) Cons.hyps by (simp add: positional_Cons)
  have "\<not> d < e" using step_less [OF bd be(1), of d e] eq by auto
  moreover have "\<not> e < d" using step_less [OF be bd(1), of e d] eq by auto
  ultimately have "d = e" by simp
  with eq have "positional b ds = positional b es" by simp
  with Cons \<open>d = e\<close> show ?case by simp
qed

section \<open>Decoding, validity and order\<close>

lemma symbolRank_nth: "i < 60 \<Longrightarrow> symbolRank (alphabet ! i) = i"
proof -
  assume i: "i < 60"
  have "takeWhile (\<lambda>x. x \<noteq> alphabet ! i) alphabet = take i alphabet"
    using i distinct_alphabet
    by (intro takeWhile_eq_take_P_nth) (auto simp: nth_eq_iff_index_eq length_alphabet)
  then show ?thesis using i by (simp add: symbolRank_def length_alphabet)
qed

lemma symbol_lookup:
  "c \<in> set alphabet \<Longrightarrow> charToValue c = Some (int (symbolRank c)) \<and> symbolRank c < 60"
  using charToValue_cases [of c] by (auto simp: symbolRank_nth)

lemma isValidBase60_iff: "isValidBase60 t \<longleftrightarrow> set t \<subseteq> set alphabet"
  by (induction t) auto

lemma find_invalid_iff: "List.find (\<lambda>c. c \<notin> set alphabet) t = None \<longleftrightarrow> set t \<subseteq> set alphabet"
  by (auto simp: find_None_iff)

lemma decodeLoop_result:
  "decodeLoop t a =
     (case List.find (\<lambda>c. c \<notin> set alphabet) t of
        Some c \<Rightarrow> Inl (InvalidCharacterError c)
      | None \<Rightarrow> Inr (a * 60 ^ length t + positional 60 (map (\<lambda>c. int (symbolRank c)) t)))"
proof (induction t arbitrary: a)
  case Nil
  then show ?case by simp
next
  case (Cons c t)
  show ?case
  proof (cases "c \<in> set alphabet")
    case True
    then show ?thesis
      using symbol_lookup [of c] Cons.IH
      by (simp add: base_eq positional_Cons algebra_simps split: option.splits)
  next
    case False
    then show ?thesis by (simp add: charToValue_None)
  qed
qed

lemma decodeToBigInt_valid:
  "isValidBase60 t \<Longrightarrow> decodeToBigInt t = Inr (positional 60 (map (\<lambda>c. int (symbolRank c)) t))"
  using find_invalid_iff [of t]
  by (simp add: decodeToBigInt_def decodeLoop_result isValidBase60_iff)

lemma rank_bounds:
  "isValidBase60 t \<Longrightarrow> \<forall>d\<in>set (map (\<lambda>c. int (symbolRank c)) t). 0 \<le> d \<and> d < 60"
  using symbol_lookup by (auto simp: isValidBase60_iff)

text \<open>
  C8. decodeToBigInt fails exactly when some character of the text is not an alphabet symbol, and
  the error then carries the first such character; it returns an integer exactly when
  isValidBase60 holds, which is when every character is one of the 60 distinct alphabet symbols,
  the empty text included.
\<close>

theorem decodeToBigInt_fails_iff_invalid:
  "((\<exists>ch. decodeToBigInt t = Inl (InvalidCharacterError ch) \<and>
          List.find (\<lambda>c. c \<notin> set alphabet) t = Some ch) = (\<not> set t \<subseteq> set alphabet))
   \<and> ((\<exists>e. decodeToBigInt t = Inl e) = (\<not> set t \<subseteq> set alphabet))
   \<and> ((\<exists>v. decodeToBigInt t = Inr v) = isValidBase60 t)
   \<and> (isValidBase60 t = (set t \<subseteq> set alphabet))
   \<and> isValidBase60 [] \<and> length alphabet = 60 \<and> distinct alphabet"
proof -
  have "List.find (\<lambda>c. c \<notin> set alphabet) t = None \<or> (\<exists>ch. List.find (\<lambda>c. c \<notin> set alphabet) t = Some ch)"
    by (cases "List.find (\<lambda>c. c \<notin> set alphabet) t") simp_all
  then show ?thesis
    using find_invalid_iff [of t]
    by (auto simp: decodeToBigInt_def decodeLoop_result isValidBase60_iff length_alphabet
        distinct_alphabet)
qed

lemma lexCompare_positional:
  "length a = length b \<Longrightarrow> isValidBase60 a \<Longrightarrow> isValidBase60 b \<Longrightarrow>
   lexCompare a b =
     (if positional 60 (map (\<lambda>c. int (symbolRank c)) a) < positional 60 (map (\<lambda>c. int (symbolRank c)) b)
      then - 1
      else if positional 60 (map (\<lambda>c. int (symbolRank c)) b) < positional 60 (map (\<lambda>c. int (symbolRank c)) a)
      then 1 else 0)"
proof (induction a b rule: list_induct2)
  case Nil
  then show ?case by simp
next
  case (Cons x xs y ys)
  let ?P = "\<lambda>t. positional 60 (map (\<lambda>c. int (symbolRank c)) t)"
  from Cons.prems have v: "isValidBase60 xs" "isValidBase60 ys"
    by (simp_all split: if_splits)
  have bx: "0 \<le> ?P xs" "?P xs < 60 ^ length xs"
    using positional_bounds [OF _ rank_bounds [OF v(1)]] by simp_all
  have bny: "0 \<le> ?P ys" "?P ys < 60 ^ length xs"
    using positional_bounds [OF _ rank_bounds [OF v(2)]] Cons.hyps by simp_all
  consider "symbolRank x < symbolRank y" | "symbolRank y < symbolRank x" | "symbolRank x = symbolRank y"
    by linarith
  then show ?case
  proof cases
    case 1
    then have "int (symbolRank x) * 60 ^ length xs + ?P xs < int (symbolRank y) * 60 ^ length xs + ?P ys"
      using bx bny by (intro step_less) simp_all
    with 1 show ?thesis using Cons.hyps by (simp add: positional_Cons)
  next
    case 2
    then have "int (symbolRank y) * 60 ^ length xs + ?P ys < int (symbolRank x) * 60 ^ length xs + ?P xs"
      using bx bny by (intro step_less) simp_all
    with 2 show ?thesis using Cons.hyps by (simp add: positional_Cons)
  next
    case 3
    then show ?thesis using Cons.IH [OF v] Cons.hyps by (simp add: positional_Cons)
  qed
qed

text \<open>
  C9. For two valid base-60 strings of the same length, compareAsBigInt, which decodes both and
  compares the integers, returns the lexicographic comparison of the strings under the order of
  the alphabet's symbols.
\<close>

theorem compareAsBigInt_lexicographic:
  "isValidBase60 a \<Longrightarrow> isValidBase60 b \<Longrightarrow> length a = length b \<Longrightarrow>
   compareAsBigInt a b = Inr (lexCompare a b)"
  by (simp add: compareAsBigInt_def decodeToBigInt_valid lexCompare_positional)

theorem compareAsBigInt_lexicographic_witness:
  "isValidBase60 ''1z'' \<and> isValidBase60 ''20'' \<and> length ''1z'' = length ''20'' \<and>
   compareAsBigInt ''1z'' ''20'' = Inr (- 1) \<and> lexCompare ''1z'' ''20'' = - 1"
  using compareAsBigInt_lexicographic [of "''1z''" "''20''"]
  by (simp add: alphabet_def symbolRank_def)

section \<open>Lengths, padding and the fixed-width integer adapter\<close>

lemma div_less_mult:
  fixes n r m :: int
  assumes "0 < r" "n < r * m"
  shows "n div r < m"
proof (rule ccontr)
  assume "\<not> n div r < m"
  then have "m \<le> n div r" by simp
  then have "r * m \<le> r * (n div r)" using assms(1) by (intro mult_left_mono) simp_all
  moreover have "r * (n div r) \<le> n"
    using mult_div_mod_eq [of r n] pos_mod_sign [OF assms(1), of n] by linarith
  ultimately show False using assms(2) by simp
qed

lemma div60_less_iff: "(v div 60 < k) = (v < 60 * k)" for v k :: int
proof
  assume "v div 60 < k"
  then have "60 * (v div 60 + 1) \<le> 60 * k" by simp
  moreover have "r < 60 \<Longrightarrow> 60 * q + r = v \<Longrightarrow> v < 60 * (q + 1)" for q r :: int
    by simp
  then have "v < 60 * (v div 60 + 1)"
    using mult_div_mod_eq [of 60 v] by (simp del: mult_div_mod_eq)
  ultimately show "v < 60 * k" by linarith
next
  assume "v < 60 * k"
  then show "v div 60 < k" by (intro div_less_mult) simp_all
qed

lemma div60_smaller:
  fixes v :: int
  assumes "0 < v"
  shows "nat (v div 60) < nat v"
proof -
  have "v div 60 < v" using assms by (intro int_div_less_self) simp_all
  then show ?thesis using assms by simp
qed

lemma encodeLoop_pos:
  "0 < v \<Longrightarrow> encodeLoop v out = encodeLoop (v div 60) (alphabet ! nat (v mod 60) # out)"
  by (subst encodeLoop.simps) (simp add: base_eq)

lemma encodeLoop_nonpos: "v \<le> 0 \<Longrightarrow> encodeLoop v out = out"
  by (subst encodeLoop.simps) simp

lemma encodeLoop_acc: "encodeLoop v out = encodeLoop v [] @ out"
proof (induction "nat v" arbitrary: v out rule: less_induct)
  case less
  show ?case
  proof (cases "0 < v")
    case True
    then have lt: "nat (v div 60) < nat v"
      by (rule div60_smaller)
    show ?thesis
      using less [OF lt, of "alphabet ! nat (v mod 60) # out"]
        less [OF lt, of "[alphabet ! nat (v mod 60)]"] True
      by (simp add: encodeLoop_pos)
  next
    case False
    then show ?thesis by (simp add: encodeLoop_nonpos)
  qed
qed

lemma encodeLoop_snoc:
  "0 < v \<Longrightarrow> encodeLoop v [] = encodeLoop (v div 60) [] @ [alphabet ! nat (v mod 60)]"
  using encodeLoop_acc [of "v div 60" "[alphabet ! nat (v mod 60)]"] by (simp add: encodeLoop_pos)

lemma encodeLoop_valid: "isValidBase60 (encodeLoop v [])"
proof (induction "nat v" arbitrary: v rule: less_induct)
  case less
  show ?case
  proof (cases "0 < v")
    case True
    then have lt: "nat (v div 60) < nat v"
      by (rule div60_smaller)
    have "alphabet ! nat (v mod 60) \<in> set alphabet"
      using True by (intro nth_mem) (simp add: length_alphabet)
    then show ?thesis
      using less [OF lt] True by (simp add: encodeLoop_snoc isValidBase60_iff)
  next
    case False
    then show ?thesis by (simp add: encodeLoop_nonpos)
  qed
qed

lemma encodeLoop_hd:
  "0 < v \<Longrightarrow> encodeLoop v [] \<noteq> [] \<and> hd (encodeLoop v []) \<noteq> alphabet ! 0"
proof (induction "nat v" arbitrary: v rule: less_induct)
  case less
  then have pos: "0 < v" by simp
  then have lt: "nat (v div 60) < nat v"
    by (rule div60_smaller)
  show ?case
  proof (cases "0 < v div 60")
    case True
    have "encodeLoop (v div 60) [] \<noteq> []" "hd (encodeLoop (v div 60) []) \<noteq> alphabet ! 0"
      using less.hyps [OF lt True] by simp_all
    then show ?thesis unfolding encodeLoop_snoc [OF pos] by simp
  next
    case False
    then have small: "v < 60" using pos
      by (simp add: pos_imp_zdiv_pos_iff)
    then have "nat v < 60" "nat v \<noteq> 0" using pos by simp_all
    then have "alphabet ! nat v \<noteq> alphabet ! 0"
      using distinct_alphabet by (simp add: nth_eq_iff_index_eq length_alphabet)
    then show ?thesis using False pos small by (simp add: encodeLoop_snoc encodeLoop_nonpos)
  qed
qed

lemma encodeLoop_length: "length (encodeLoop v []) \<le> n \<longleftrightarrow> v < 60 ^ n"
proof (induction n arbitrary: v)
  case 0
  show ?case
  proof (cases "0 < v")
    case True
    then show ?thesis by (simp add: encodeLoop_snoc)
  next
    case False
    then show ?thesis by (simp add: encodeLoop_nonpos)
  qed
next
  case (Suc n)
  show ?case
  proof (cases "0 < v")
    case True
    have "v div 60 < 60 ^ n \<longleftrightarrow> v < 60 * 60 ^ n"
      by (rule div60_less_iff)
    then show ?thesis using True Suc [of "v div 60"] by (simp add: encodeLoop_snoc)
  next
    case False
    then have "v < 60 ^ Suc n"
      by (meson less_le_trans not_less zero_less_numeral zero_less_power)
    then show ?thesis using False by (simp add: encodeLoop_nonpos)
  qed
qed


lemma encodeBigInt_None:
  "encodeBigInt v None = Inr (if v = 0 then [alphabet ! 0] else encodeLoop v [])"
  by (simp add: encodeBigInt_def Let_def)

lemma encodeBigInt_Some:
  "encodeBigInt v (Some w) = leftPad (if v = 0 then [alphabet ! 0] else encodeLoop v []) w"
  by (simp add: encodeBigInt_def Let_def)

lemma leftPad_eq:
  "leftPad t n =
     (if n < length t then Inl (OverflowError (length t) n)
      else Inr (replicate (n - length t) (alphabet ! 0) @ t))"
  by (simp add: leftPad_def padStart_def)

lemma decodeLoop_zeros: "decodeLoop (replicate k (alphabet ! 0) @ t) 0 = decodeLoop t 0"
  using charToValue_nth [of 0] by (induction k) simp_all

lemma decodeToBigInt_Inr_valid: "decodeToBigInt t = Inr v \<Longrightarrow> isValidBase60 t"
  using find_invalid_iff [of t]
  by (auto simp: decodeToBigInt_def decodeLoop_result isValidBase60_iff split: option.splits)

lemma decoded_less: "decodeToBigInt t = Inr v \<Longrightarrow> 0 \<le> v \<and> v < 60 ^ length t"
proof -
  assume d: "decodeToBigInt t = Inr v"
  then have val: "isValidBase60 t" by (rule decodeToBigInt_Inr_valid)
  then have "v = positional 60 (map (\<lambda>c. int (symbolRank c)) t)"
    using d by (simp add: decodeToBigInt_valid)
  then show ?thesis
    using positional_bounds [OF _ rank_bounds [OF val]] by simp
qed

text \<open>
  C7. For a non-negative \<open>v\<close>, encodeBigInt without a width returns the minimal representation
  \<open>m\<close> of \<open>v\<close> (no non-empty text that decodes to \<open>v\<close> is shorter). With a width \<open>w\<close>, it returns
  \<open>m\<close> left-padded with the zero-symbol to exactly \<open>w\<close> characters when \<open>m\<close> has at most \<open>w\<close>
  characters, and fails with an OverflowError when \<open>m\<close> is longer: nothing is truncated.
\<close>

theorem encodeBigInt_padding:
  assumes "0 \<le> v"
  shows "\<exists>m. encodeBigInt v None = Inr m \<and> isMinimalRepresentation m v
           \<and> (\<forall>t. t \<noteq> [] \<and> decodeToBigInt t = Inr v \<longrightarrow> length m \<le> length t)
           \<and> encodeBigInt v (Some w) =
               (if length m \<le> w then Inr (replicate (w - length m) (alphabet ! 0) @ m)
                else Inl (OverflowError (length m) w))"
proof (cases "v = 0")
  case True
  have "alphabet ! 0 \<in> set alphabet" by (simp add: alphabet_def)
  then have "isMinimalRepresentation [alphabet ! 0] 0"
    using charToValue_nth [of 0]
    by (simp add: isMinimalRepresentation_def decodeToBigInt_def base_eq)
  moreover have "\<forall>t. t \<noteq> [] \<and> decodeToBigInt t = Inr v \<longrightarrow> length [alphabet ! 0] \<le> length t"
    by (simp add: Suc_le_eq)
  ultimately show ?thesis
    using True by (auto simp: encodeBigInt_None encodeBigInt_Some leftPad_eq)
next
  case False
  with assms have pos: "0 < v" by simp
  let ?m = "encodeLoop v []"
  have "decodeToBigInt ?m = Inr v"
    using decode_encodeLoop [of v "[]"] assms by (simp add: decodeToBigInt_def)
  then have "isMinimalRepresentation ?m v"
    using encodeLoop_hd [OF pos] encodeLoop_valid [of v] False
    by (simp add: isMinimalRepresentation_def)
  moreover have "\<forall>t. t \<noteq> [] \<and> decodeToBigInt t = Inr v \<longrightarrow> length ?m \<le> length t"
    using decoded_less by (simp add: encodeLoop_length)
  ultimately show ?thesis
    using False by (auto simp: encodeBigInt_None encodeBigInt_Some leftPad_eq)
qed

theorem encodeBigInt_padding_witness:
  "(0::int) \<le> 123 \<and> encodeBigInt 123 None = Inr ''23'' \<and> isMinimalRepresentation ''23'' 123
   \<and> encodeBigInt 123 (Some 5) = Inr ''00023''
   \<and> encodeBigInt 123 (Some 1) = Inl (OverflowError 2 1)"
proof -
  have m: "encodeBigInt 123 None = Inr ''23''"
    by (simp add: encodeBigInt_None encodeLoop_pos encodeLoop_nonpos alphabet_def)
  show ?thesis
    using encodeBigInt_padding [of 123 5] encodeBigInt_padding [of 123 1] m
    by (simp add: alphabet_def numeral_3_eq_3)
qed

text \<open>
  C10. encodeInt64 checks no 64-bit range. For every \<open>v\<close> with \<open>0 \<le> v < 60 ^ 11\<close> it returns an
  11-character string that decodeInt64 maps back to \<open>v\<close>; it fails exactly when \<open>60 ^ 11 \<le> v\<close>;
  and \<open>2 ^ 64 < 60 ^ 11\<close>, so the values from \<open>2 ^ 64\<close> up to \<open>60 ^ 11\<close> are accepted.
\<close>

theorem encodeInt64_range:
  "(0 \<le> v \<and> v < 60 ^ 11 \<longrightarrow>
      (\<exists>s. encodeInt64 v = Inr s \<and> length s = 11 \<and> decodeInt64 s = Inr v))
   \<and> ((\<exists>e. encodeInt64 v = Inl e) = (60 ^ 11 \<le> v))
   \<and> (2::int) ^ 64 < 60 ^ 11"
proof -
  let ?m = "if v = 0 then [alphabet ! 0] else encodeLoop v []"
  have enc: "encodeBigInt v None = Inr ?m" by (rule encodeBigInt_None)
  have len: "length ?m \<le> 11 \<longleftrightarrow> v < 60 ^ 11"
    by (simp add: encodeLoop_length)
  then have len': "11 < length ?m \<longleftrightarrow> \<not> v < 60 ^ 11"
    by (simp only: not_le [symmetric])
  have e64: "encodeInt64 v =
      (if v < 60 ^ 11 then Inr (replicate (11 - length ?m) (alphabet ! 0) @ ?m)
       else Inl (OverflowError (length ?m) 11))"
    unfolding encodeInt64_def enc sum.case leftPad_eq FIXED_LEN_INT64_def len' by simp
  have rt: "decodeInt64 (replicate (11 - length ?m) (alphabet ! 0) @ ?m) = Inr v"
    if "0 \<le> v" "v < 60 ^ 11"
  proof -
    have "decodeLoop ?m 0 = Inr v"
      using decode_encodeLoop [of v "[]"] that(1) charToValue_nth [of 0] by (simp add: base_eq)
    moreover have "length ?m \<le> 11" using len that(2) by simp
    ultimately show ?thesis
      unfolding decodeInt64_def decodeToBigInt_def decodeLoop_zeros
      by (simp add: FIXED_LEN_INT64_def)
  qed
  have l11: "length (replicate (11 - length ?m) (alphabet ! 0) @ ?m) = 11" if "v < 60 ^ 11"
    using len that by simp
  show ?thesis using e64 rt l11 by auto
qed

theorem encodeInt64_range_witness:
  "(0::int) \<le> 2 ^ 64 \<and> (2::int) ^ 64 < 60 ^ 11
   \<and> (\<exists>s. encodeInt64 (2 ^ 64) = Inr s \<and> length s = 11 \<and> decodeInt64 s = Inr (2 ^ 64))
   \<and> (\<exists>e. encodeInt64 (60 ^ 11) = Inl e)"
  using encodeInt64_range [of "2 ^ 64"] encodeInt64_range [of "60 ^ 11"] by simp

section \<open>Digits: toString and parseInt\<close>

declare toStringRadix.simps [simp del]

lemma digitChars_table: "list_all (\<lambda>k. digitValue (digitChars ! k) = Some k) [0..<36]"
  by (simp add: upt_rec digitChars_def digitValue_def)

lemma digitValue_digitChars: "k < 36 \<Longrightarrow> digitValue (digitChars ! k) = Some k"
  using digitChars_table by (simp add: list_all_iff)

lemma toStringRadix_small: "n < int r \<Longrightarrow> toStringRadix r n = [digitChars ! nat n]"
  by (subst toStringRadix.simps) simp

lemma toStringRadix_big:
  "2 \<le> r \<Longrightarrow> int r \<le> n \<Longrightarrow>
   toStringRadix r n = toStringRadix r (n div int r) @ [digitChars ! nat (n mod int r)]"
  by (subst toStringRadix.simps) simp

lemma div_radix_smaller:
  fixes n :: int
  assumes "2 \<le> r" "int r \<le> n"
  shows "nat (n div int r) < nat n" "0 \<le> n div int r"
proof -
  have "n div int r < n" using assms by (intro int_div_less_self) simp_all
  then show "nat (n div int r) < nat n" using assms by simp
  show "0 \<le> n div int r" using assms by (simp add: pos_imp_zdiv_nonneg_iff)
qed

lemma toStringRadix_digits:
  "2 \<le> r \<Longrightarrow> r \<le> 36 \<Longrightarrow> 0 \<le> n \<Longrightarrow>
   toStringRadix r n \<noteq> [] \<and> (\<forall>c\<in>set (toStringRadix r n). isRadixDigit r c) \<and>
   positional (int r) (map digitInt (toStringRadix r n)) = n"
proof (induction "nat n" arbitrary: n rule: less_induct)
  case less
  show ?case
  proof (cases "n < int r")
    case True
    then have "nat n < 36" "nat n < r" using less.prems by simp_all
    then show ?thesis
      using True less.prems digitValue_digitChars [of "nat n"]
      by (simp add: toStringRadix_small isRadixDigit_def digitInt_def positional_Cons)
  next
    case False
    then have big: "int r \<le> n" by simp
    have "n mod int r < int r" "0 \<le> n mod int r" using less.prems by simp_all
    then have m: "nat (n mod int r) < r" "nat (n mod int r) < 36" "0 \<le> n mod int r"
      using less.prems by linarith+
    have ih: "toStringRadix r (n div int r) \<noteq> []"
      "\<forall>c\<in>set (toStringRadix r (n div int r)). isRadixDigit r c"
      "positional (int r) (map digitInt (toStringRadix r (n div int r))) = n div int r"
      using less.hyps [OF div_radix_smaller(1) [OF less.prems(1) big] less.prems(1,2)
          div_radix_smaller(2) [OF less.prems(1) big]]
      by simp_all
    show ?thesis
      unfolding toStringRadix_big [OF less.prems(1) big]
      using ih m digitValue_digitChars [OF m(2)]
      by (simp add: positional_append positional_Cons isRadixDigit_def digitInt_def)
  qed
qed

lemma toStringRadix_length:
  "2 \<le> r \<Longrightarrow> 0 \<le> n \<Longrightarrow> n < int r ^ Suc k \<Longrightarrow> length (toStringRadix r n) \<le> Suc k"
proof (induction k arbitrary: n)
  case 0
  then show ?case by (simp add: toStringRadix_small)
next
  case (Suc k)
  show ?case
  proof (cases "n < int r")
    case True
    then show ?thesis by (simp add: toStringRadix_small)
  next
    case False
    then have big: "int r \<le> n" by simp
    have "n div int r < int r ^ Suc k"
      using Suc.prems by (intro div_less_mult) simp_all
    then have "length (toStringRadix r (n div int r)) \<le> Suc k"
      using Suc.IH [OF Suc.prems(1) div_radix_smaller(2) [OF Suc.prems(1) big]] by simp
    then show ?thesis
      unfolding toStringRadix_big [OF Suc.prems(1) big] by simp
  qed
qed

lemma digit_not_space:
  "isRadixDigit r c \<Longrightarrow> \<not> isStrWhiteSpaceChar c \<and> c \<noteq> CHR ''+'' \<and> c \<noteq> CHR ''-''"
  by (auto simp: isRadixDigit_def digitValue_def isStrWhiteSpaceChar_def Let_def
      split: if_splits option.splits)

lemma x_not_hex: "r \<le> 16 \<Longrightarrow> \<not> isRadixDigit r CHR ''x'' \<and> \<not> isRadixDigit r CHR ''X''"
  by (simp add: isRadixDigit_def digitValue_def)

lemma digitsToNat_positional:
  "int (fold (\<lambda>c acc. acc * r + the (digitValue c)) z a) =
   int a * int r ^ length z + positional (int r) (map digitInt z)"
proof (induction z arbitrary: a)
  case Nil
  then show ?case by simp
next
  case (Cons c z)
  have dc: "digitInt c = int (the (digitValue c))" by (simp add: digitInt_def)
  show ?case
    unfolding fold_simps Cons.IH
    by (simp add: positional_Cons dc algebra_simps)
qed

lemma parseInt_digits:
  assumes "z \<noteq> []" "\<forall>c\<in>set z. isRadixDigit r c" "r \<le> 16"
  shows "parseInt z r = Some (positional (int r) (map digitInt z))"
proof -
  obtain c z' where z: "z = c # z'" using assms(1) by (cases z) auto
  have c: "\<not> isStrWhiteSpaceChar c" "c \<noteq> CHR ''+''" "c \<noteq> CHR ''-''"
    using digit_not_space [of r c] assms(2) z by simp_all
  have "z' \<noteq> [] \<longrightarrow> hd z' \<noteq> CHR ''x'' \<and> hd z' \<noteq> CHR ''X''"
    using x_not_hex [OF assms(3)] assms(2) z by (cases z') auto
  then have nox: "\<not> (r = 16 \<and> (take 2 z = ''0x'' \<or> take 2 z = ''0X''))"
    unfolding z by (cases z') auto
  have tw: "takeWhile (isRadixDigit r) z = z"
    using assms(2) by (simp add: takeWhile_eq_all_conv)
  have dw: "dropWhile isStrWhiteSpaceChar z = z"
    using c z by simp
  have sg: "(if z \<noteq> [] \<and> hd z = CHR ''-'' then - 1 else 1 :: int) = 1"
    using c z by simp
  have s2: "(if z \<noteq> [] \<and> (hd z = CHR ''+'' \<or> hd z = CHR ''-'') then tl z else z) = z"
    using c z by simp
  have s3: "(if r = 16 \<and> (take 2 z = ''0x'' \<or> take 2 z = ''0X'') then drop 2 z else z) = z"
    using nox by (rule if_not_P)
  show ?thesis
    unfolding parseInt_def Let_def dw sg s2 s3 tw digitsToNat_def
    using assms(1) digitsToNat_positional [of r z 0] by simp
qed


section \<open>Bytes and integers\<close>

lemma bytesToBigInt_positional: "bytesToBigInt bs = positional 256 (map int bs)"
proof -
  have "fold (\<lambda>b result. push_bit 8 result + int b) bs a =
        fold (\<lambda>d acc. acc * 256 + d) (map int bs) a" for a
    by (induction bs arbitrary: a) (simp_all add: push_bit_eq_mult)
  then show ?thesis by (simp add: bytesToBigInt_def positional_def)
qed

lemma radix_digit_value:
  "isRadixDigit r c \<Longrightarrow> 0 \<le> digitInt c \<and> digitInt c < int r \<and> digitValue c = Some (nat (digitInt c))"
  by (auto simp: isRadixDigit_def digitInt_def split: option.splits)

lemma hex_pair_byte:
  assumes "isRadixDigit 16 a" "isRadixDigit 16 b"
  shows "toUint8 (parseInt [a, b] 16) = the (digitValue a) * 16 + the (digitValue b)"
proof -
  have p: "parseInt [a, b] 16 = Some (positional 16 (map digitInt [a, b]))"
    using parseInt_digits [of "[a, b]" 16] assms by simp
  have "0 \<le> digitInt a" "digitInt a < 16" "0 \<le> digitInt b" "digitInt b < 16"
    using radix_digit_value [OF assms(1)] radix_digit_value [OF assms(2)] by simp_all
  then have "(digitInt a * 16 + digitInt b) mod 256 = digitInt a * 16 + digitInt b"
    by simp
  then show ?thesis
    unfolding p toUint8_def by (simp add: positional_Cons digitInt_def nat_add_distrib nat_mult_distrib)
qed

lemma substr_pairs:
  "map (\<lambda>i. F (substr (a # b # rest) (i * 2) 2)) [0..<Suc n] =
   F [a, b] # map (\<lambda>i. F (substr rest (i * 2) 2)) [0..<n]"
  by (simp add: map_upt_Suc substr_def del: upt_Suc)

lemma hex_bytes:
  "even (length hex) \<Longrightarrow> \<forall>c\<in>set hex. isRadixDigit 16 c \<Longrightarrow>
   map (\<lambda>i. toUint8 (parseInt (substr hex (i * 2) 2) 16)) [0..<length hex div 2] = pairBytes hex"
proof (induction hex rule: pairBytes.induct)
  case (1 a b rest)
  have "length (a # b # rest) div 2 = Suc (length rest div 2)" by simp
  then show ?case
    using 1 hex_pair_byte [of a b]
    by (simp only: substr_pairs [where F = "\<lambda>s. toUint8 (parseInt s 16)"]) simp
qed simp_all

lemma pairBytes_props:
  "even (length hex) \<Longrightarrow> \<forall>c\<in>set hex. isRadixDigit 16 c \<Longrightarrow>
   (\<forall>b\<in>set (pairBytes hex). b < 256) \<and> length (pairBytes hex) = length hex div 2 \<and>
   positional 256 (map int (pairBytes hex)) = positional 16 (map digitInt hex)"
proof (induction hex rule: pairBytes.induct)
  case (1 a b rest)
  have d: "0 \<le> digitInt a" "digitInt a < 16" "0 \<le> digitInt b" "digitInt b < 16"
    using radix_digit_value [of 16 a] radix_digit_value [of 16 b] 1 by simp_all
  then have lt: "the (digitValue a) * 16 + the (digitValue b) < 256"
    by (simp add: digitInt_def)
  have ev: "even (length rest)" using 1 by simp
  then obtain k where k: "length rest = 2 * k" by (auto elim: evenE)
  have "(16::int) ^ (2 * k) = (16 ^ 2) ^ k" by (rule power_mult)
  then have pw: "(16::int) ^ length rest = 256 ^ (length rest div 2)"
    using k by simp
  have ih: "\<forall>b\<in>set (pairBytes rest). b < 256" "length (pairBytes rest) = length rest div 2"
    "positional 256 (map int (pairBytes rest)) = positional 16 (map digitInt rest)"
    using 1 by simp_all
  have dab: "digitInt a = int (the (digitValue a))" "digitInt b = int (the (digitValue b))"
    by (simp_all add: digitInt_def)
  show ?case
    using lt ih pw by (simp add: positional_Cons dab algebra_simps)
qed simp_all


lemma zero_digit: "isRadixDigit 16 CHR ''0'' \<and> digitInt CHR ''0'' = 0"
  by (simp add: isRadixDigit_def digitValue_def digitInt_def)

lemma bigIntToBytes_fixed:
  assumes "0 \<le> v" "v < 256 ^ n" "0 < n"
  shows "\<exists>bs. bigIntToBytes v (Some n) = Inr bs \<and> length bs = n \<and> (\<forall>b\<in>set bs. b < 256) \<and>
           bytesToBigInt bs = v"
proof -
  define hex0 where "hex0 = toStringRadix 16 v"
  define hex where "hex = (if length hex0 mod 2 = 1 then CHR ''0'' # hex0 else hex0)"
  have h0: "\<forall>c\<in>set hex0. isRadixDigit 16 c" "positional 16 (map digitInt hex0) = v"
    using toStringRadix_digits [of 16 v] assms(1) by (simp_all add: hex0_def)
  obtain k where n: "n = Suc k" using assms(3) by (cases n) auto
  have "(256::int) ^ n = (16 ^ 2) ^ n" by simp
  also have "\<dots> = 16 ^ (2 * n)" by (rule power_mult [symmetric])
  finally have "v < int 16 ^ Suc (2 * k + 1)" using assms(2) n by simp
  then have "length hex0 \<le> Suc (2 * k + 1)"
    unfolding hex0_def using assms(1) by (intro toStringRadix_length) simp_all
  then have l0: "length hex0 \<le> 2 * n" using n by simp
  have ev: "even (length hex)" by (simp add: hex_def) presburger
  have len: "length hex \<le> 2 * n" using l0 by (simp add: hex_def) presburger
  have dig: "\<forall>c\<in>set hex. isRadixDigit 16 c" using h0(1) zero_digit by (simp add: hex_def)
  have val: "positional 16 (map digitInt hex) = v"
    using h0(2) zero_digit by (simp add: hex_def positional_Cons)
  define bytes where "bytes = pairBytes hex"
  have bytes: "map (\<lambda>i. toUint8 (parseInt (substr hex (i * 2) 2) 16)) [0..<length hex div 2] = bytes"
    unfolding bytes_def using ev dig by (rule hex_bytes)
  have props: "\<forall>b\<in>set bytes. b < 256" "length bytes = length hex div 2"
    "positional 256 (map int bytes) = v"
    using pairBytes_props [OF ev dig] val by (simp_all add: bytes_def)
  have fit: "length bytes \<le> n" using props(2) len by simp
  have "bigIntToBytes v (Some n) = Inr (replicate (n - length bytes) 0 @ bytes)"
    using assms(1) fit bytes
    unfolding bigIntToBytes_def Let_def hex0_def [symmetric] hex_def [symmetric]
    by simp
  moreover have "bytesToBigInt (replicate (n - length bytes) 0 @ bytes) = v"
    using props(3) by (simp add: bytesToBigInt_positional)
  ultimately show ?thesis using props(1) fit by auto
qed

lemma bigIntToBytes_bytes:
  assumes "length bs = n" "0 < n" "\<forall>b\<in>set bs. b < 256"
  shows "bigIntToBytes (bytesToBigInt bs) (Some n) = Inr bs"
proof -
  have bnd: "\<forall>d\<in>set (map int bs). 0 \<le> d \<and> d < 256" using assms(3) by simp
  have "0 \<le> bytesToBigInt bs \<and> bytesToBigInt bs < 256 ^ n"
    using positional_bounds [OF _ bnd] assms(1) by (simp add: bytesToBigInt_positional)
  then obtain cs where cs: "bigIntToBytes (bytesToBigInt bs) (Some n) = Inr cs" "length cs = n"
    "\<forall>b\<in>set cs. b < 256" "bytesToBigInt cs = bytesToBigInt bs"
    using bigIntToBytes_fixed [of "bytesToBigInt bs" n] assms(2) by blast
  have "map int cs = map int bs"
    using cs(2,3,4) assms(1) bnd
    by (intro positional_inj [of _ _ 256]) (simp_all add: bytesToBigInt_positional)
  then have "cs = bs" by (simp add: inj_map_eq_map)
  with cs(1) show ?thesis by simp
qed

section \<open>The UUID adapter\<close>

lemma hex_char_digit:
  "isHexChar c \<Longrightarrow> isRadixDigit 16 c \<and> c \<noteq> CHR ''-'' \<and>
     digitChars ! the (digitValue c) = toLowerChar c"
  by (auto simp: isHexChar_def isRadixDigit_def digitValue_def digitChars_def toLowerChar_def
      char_of_def bit_Suc_0_iff)

lemma hyphen_lower: "toLowerChar CHR ''-'' = CHR ''-''"
  by (simp add: toLowerChar_def)

lemma byte_hex:
  assumes "isHexChar a" "isHexChar b"
  shows "padStart 2 (CHR ''0'') (toStringRadix 16 (int (the (digitValue a) * 16 + the (digitValue b))))
         = [toLowerChar a, toLowerChar b]"
proof -
  define x where "x = the (digitValue a)"
  define y where "y = the (digitValue b)"
  have xy: "x < 16" "y < 16"
    using radix_digit_value [of 16 a] radix_digit_value [of 16 b] hex_char_digit assms
    by (simp_all add: x_def y_def digitInt_def)
  have lo: "digitChars ! x = toLowerChar a" "digitChars ! y = toLowerChar b"
    using hex_char_digit assms by (simp_all add: x_def y_def)
  have "padStart 2 (CHR ''0'') (toStringRadix 16 (int (x * 16 + y))) = [digitChars ! x, digitChars ! y]"
  proof (cases "x = 0")
    case True
    then show ?thesis
      using xy by (simp add: toStringRadix_small padStart_def digitChars_def)
  next
    case False
    define n where "n = int x * 16 + int y"
    have big: "int 16 \<le> n" using False by (simp add: n_def)
    have dm: "n div int 16 = int x" "n mod int 16 = int y"
      using xy by (simp_all add: n_def)
    have "toStringRadix 16 n = [digitChars ! x, digitChars ! y]"
      using toStringRadix_big [of 16 n] big xy dm by (simp add: toStringRadix_small)
    then show ?thesis
      by (simp add: padStart_def n_def)
  qed
  then show ?thesis using lo unfolding x_def y_def by simp
qed

lemma pairBytes_hex:
  "even (length h) \<Longrightarrow> \<forall>c\<in>set h. isHexChar c \<Longrightarrow>
   concat (map (\<lambda>b. padStart 2 (CHR ''0'') (toStringRadix 16 (int b))) (pairBytes h)) =
   map toLowerChar h"
proof (induction h rule: pairBytes.induct)
  case (1 a b rest)
  then show ?case using byte_hex [of a b] by simp
qed simp_all


lemma segment_all:
  "\<forall>i. a \<le> i \<and> i < a + n \<longrightarrow> P (xs ! i) \<Longrightarrow> a + n \<le> length xs \<Longrightarrow>
   \<forall>c\<in>set (take n (drop a xs)). P c"
  by (auto simp: in_set_conv_nth)

lemma valid_uuid_split:
  assumes "isValidUUID u"
  obtains g1 g2 g3 g4 g5 where
    "u = g1 @ CHR ''-'' # g2 @ CHR ''-'' # g3 @ CHR ''-'' # g4 @ CHR ''-'' # g5"
    "length g1 = 8" "length g2 = 4" "length g3 = 4" "length g4 = 4" "length g5 = 12"
    "\<forall>c\<in>set g1. isHexChar c" "\<forall>c\<in>set g2. isHexChar c" "\<forall>c\<in>set g3. isHexChar c"
    "\<forall>c\<in>set g4. isHexChar c" "\<forall>c\<in>set g5. isHexChar c"
proof -
  have len: "length u = 36" using assms by (simp add: isValidUUID_def)
  have pos: "\<forall>i<36. if i \<in> set [8, 13, 18, 23] then u ! i = CHR ''-'' else isHexChar (u ! i)"
    using assms by (simp add: isValidUUID_def list_all_iff)
  have hy: "u ! 8 = CHR ''-''" "u ! 13 = CHR ''-''" "u ! 18 = CHR ''-''" "u ! 23 = CHR ''-''"
    using pos by simp_all
  have hx: "isHexChar (u ! i)" if "i < 36" "i \<noteq> 8" "i \<noteq> 13" "i \<noteq> 18" "i \<noteq> 23" for i
    using pos that by simp
  have s1: "u = take 8 u @ u ! 8 # drop 9 u"
    using id_take_nth_drop [of 8 u] len by simp
  have s2: "drop 9 u = take 4 (drop 9 u) @ u ! 13 # drop 14 u"
    using id_take_nth_drop [of 4 "drop 9 u"] len by simp
  have s3: "drop 14 u = take 4 (drop 14 u) @ u ! 18 # drop 19 u"
    using id_take_nth_drop [of 4 "drop 14 u"] len by simp
  have s4: "drop 19 u = take 4 (drop 19 u) @ u ! 23 # drop 24 u"
    using id_take_nth_drop [of 4 "drop 19 u"] len by simp
  have eq: "u = take 8 u @ CHR ''-'' # take 4 (drop 9 u) @ CHR ''-'' # take 4 (drop 14 u) @
      CHR ''-'' # take 4 (drop 19 u) @ CHR ''-'' # drop 24 u"
    using s1 s2 s3 s4 hy by metis
  have h1: "\<forall>c\<in>set (take 8 (drop 0 u)). isHexChar c"
    using hx len by (intro segment_all) auto
  have h2: "\<forall>c\<in>set (take 4 (drop 9 u)). isHexChar c"
    using hx len by (intro segment_all) auto
  have h3: "\<forall>c\<in>set (take 4 (drop 14 u)). isHexChar c"
    using hx len by (intro segment_all) auto
  have h4: "\<forall>c\<in>set (take 4 (drop 19 u)). isHexChar c"
    using hx len by (intro segment_all) auto
  have h5: "\<forall>c\<in>set (take 12 (drop 24 u)). isHexChar c"
    using hx len by (intro segment_all) auto
  show thesis
    using that [OF eq] h1 h2 h3 h4 h5 len by simp
qed


lemma encodeBigInt_decodes:
  assumes "0 \<le> v" "v < 60 ^ n" "0 < n"
  shows "\<exists>s. (case encodeBigInt v None of Inl e \<Rightarrow> Inl e | Inr raw \<Rightarrow> leftPad raw n) = Inr s \<and>
           length s = n \<and> decodeToBigInt s = Inr v"
proof -
  define m where "m = (if v = 0 then [alphabet ! 0] else encodeLoop v [])"
  have enc: "encodeBigInt v None = Inr m" by (simp add: m_def encodeBigInt_None)
  have len: "length m \<le> n"
    using assms(2,3) by (simp add: m_def encodeLoop_length Suc_le_eq)
  have "decodeLoop m 0 = Inr v"
    using decode_encodeLoop [of v "[]"] assms(1) charToValue_nth [of 0] by (simp add: m_def base_eq)
  then have "decodeToBigInt (replicate (n - length m) (alphabet ! 0) @ m) = Inr v"
    by (simp add: decodeToBigInt_def decodeLoop_zeros)
  then show ?thesis
    using len unfolding enc by (simp add: leftPad_eq)
qed

lemma hex_char_lower:
  "isHexChar c \<Longrightarrow> isHexChar (toLowerChar c) \<and> digitValue (toLowerChar c) = digitValue c"
  by (auto simp: isHexChar_def digitValue_def toLowerChar_def char_of_def bit_Suc_0_iff)

lemma lower_valid: "isValidUUID u \<Longrightarrow> isValidUUID (toLowerCase u)"
proof -
  assume v: "isValidUUID u"
  then have len: "length u = 36" by (simp add: isValidUUID_def)
  have pos: "\<forall>i<36. if i \<in> set [8, 13, 18, 23] then u ! i = CHR ''-'' else isHexChar (u ! i)"
    using v by (simp add: isValidUUID_def list_all_iff)
  have "\<forall>i<36. if i \<in> set [8, 13, 18, 23] then toLowerChar (u ! i) = CHR ''-''
        else isHexChar (toLowerChar (u ! i))"
    using pos hex_char_lower by (auto simp: hyphen_lower)
  then show ?thesis
    using len by (auto simp: isValidUUID_def list_all_iff toLowerCase_def)
qed

lemma pairBytes_lower:
  "\<forall>c\<in>set h. isHexChar c \<Longrightarrow> pairBytes (map toLowerChar h) = pairBytes h"
  by (induction h rule: pairBytes.induct) (simp_all add: hex_char_lower)

lemma valid_uuid_chars:
  assumes "isValidUUID u" "c \<in> set u"
  shows "c = CHR ''-'' \<or> isHexChar c"
proof -
  have len: "length u = 36" using assms(1) by (simp add: isValidUUID_def)
  have pos: "\<forall>i<36. if i \<in> set [8, 13, 18, 23] then u ! i = CHR ''-'' else isHexChar (u ! i)"
    using assms(1) by (simp add: isValidUUID_def list_all_iff)
  obtain i where "i < 36" "c = u ! i" using assms(2) len by (auto simp: in_set_conv_nth)
  then show ?thesis using pos by (auto split: if_splits)
qed

lemma valid_uuid_filter:
  assumes "isValidUUID u"
  shows "length (filter (\<lambda>c. c \<noteq> CHR ''-'') u) = 32"
proof -
  obtain g1 g2 g3 g4 g5 where
    u: "u = g1 @ CHR ''-'' # g2 @ CHR ''-'' # g3 @ CHR ''-'' # g4 @ CHR ''-'' # g5" and
    l: "length g1 = 8" "length g2 = 4" "length g3 = 4" "length g4 = 4" "length g5 = 12" and
    g: "\<forall>c\<in>set g1. isHexChar c" "\<forall>c\<in>set g2. isHexChar c" "\<forall>c\<in>set g3. isHexChar c"
      "\<forall>c\<in>set g4. isHexChar c" "\<forall>c\<in>set g5. isHexChar c"
    using valid_uuid_split [OF assms] by metis
  have "filter (\<lambda>c. c \<noteq> CHR ''-'') g = g" if "\<forall>c\<in>set g. isHexChar c" for g
    using that hex_char_digit by (simp add: filter_id_conv)
  then show ?thesis using g l by (simp add: u)
qed

lemma encodeUUID_bytes:
  assumes "length (filter (\<lambda>c. c \<noteq> CHR ''-'') u) = 32"
    "\<forall>c\<in>set (filter (\<lambda>c. c \<noteq> CHR ''-'') u). isHexChar c"
  shows "encodeUUID u =
    (case encodeBigInt (bytesToBigInt (pairBytes (filter (\<lambda>c. c \<noteq> CHR ''-'') u))) None of
       Inl e \<Rightarrow> Inl e | Inr s \<Rightarrow> leftPad s 22)"
proof -
  define h where "h = filter (\<lambda>c. c \<noteq> CHR ''-'') u"
  have dig: "\<forall>c\<in>set h. isRadixDigit 16 c" using assms(2) hex_char_digit by (auto simp: h_def)
  have lenh: "length h = 32" using assms(1) by (simp add: h_def)
  have "map (\<lambda>i. toUint8 (parseInt (substr h (i * 2) 2) 16)) [0..<16] = pairBytes h"
    using hex_bytes [OF _ dig] lenh by simp
  then show ?thesis
    unfolding encodeUUID_def Let_def h_def [symmetric] FIXED_LEN_UUID_def using lenh by simp
qed

lemma encodeUUID_lower:
  assumes "isValidUUID u"
  shows "encodeUUID (toLowerCase u) = encodeUUID u"
proof -
  define h where "h = filter (\<lambda>c. c \<noteq> CHR ''-'') u"
  have hex: "\<forall>c\<in>set h. isHexChar c" using valid_uuid_chars [OF assms] by (auto simp: h_def)
  have "(toLowerChar c \<noteq> CHR ''-'') = (c \<noteq> CHR ''-'')" if "c \<in> set u" for c
    using valid_uuid_chars [OF assms that] hex_char_lower [of c] hex_char_digit hyphen_lower
    by auto
  then have fl: "filter (\<lambda>c. c \<noteq> CHR ''-'') (toLowerCase u) = map toLowerChar h"
    unfolding toLowerCase_def h_def filter_map comp_def by (simp cong: filter_cong)
  have lenh: "length h = 32" using valid_uuid_filter [OF assms] by (simp add: h_def)
  have hexl: "\<forall>c\<in>set (map toLowerChar h). isHexChar c" using hex hex_char_lower by simp
  show ?thesis
    using encodeUUID_bytes [of u] encodeUUID_bytes [of "toLowerCase u"] hex hexl lenh
    unfolding fl h_def [symmetric] by (simp add: pairBytes_lower)
qed

text \<open>
  C2. For every valid 36-character hyphenated UUID text \<open>u\<close>, in either case, encodeUUID returns
  a 22-character string, and decodeUUID of that string is \<open>u\<close> with its letters in lower case.
  That text is a valid UUID text again (36 characters, the hyphens at the same places), and it
  stands for the same 16 bytes: encodeUUID maps it to the same string.
\<close>

theorem uuid_roundtrip:
  assumes "isValidUUID u"
  shows "\<exists>s. encodeUUID u = Inr s \<and> length s = 22 \<and> decodeUUID s = Inr (toLowerCase u) \<and>
           isValidUUID (toLowerCase u) \<and> encodeUUID (toLowerCase u) = Inr s"
proof -
  obtain g1 g2 g3 g4 g5 where
    u: "u = g1 @ CHR ''-'' # g2 @ CHR ''-'' # g3 @ CHR ''-'' # g4 @ CHR ''-'' # g5" and
    l: "length g1 = 8" "length g2 = 4" "length g3 = 4" "length g4 = 4" "length g5 = 12" and
    g: "\<forall>c\<in>set g1. isHexChar c" "\<forall>c\<in>set g2. isHexChar c" "\<forall>c\<in>set g3. isHexChar c"
      "\<forall>c\<in>set g4. isHexChar c" "\<forall>c\<in>set g5. isHexChar c"
    using valid_uuid_split [OF assms] by metis
  define h where "h = g1 @ g2 @ g3 @ g4 @ g5"
  have hex: "\<forall>c\<in>set h. isHexChar c" using g by (auto simp: h_def)
  have lenh: "length h = 32" using l by (simp add: h_def)
  have dig: "\<forall>c\<in>set h. isRadixDigit 16 c" using hex hex_char_digit by blast
  have nohy: "\<forall>c\<in>set h. c \<noteq> CHR ''-''" using hex hex_char_digit by blast
  have "filter (\<lambda>c. c \<noteq> CHR ''-'') h = h" using nohy by (simp add: filter_id_conv)
  then have filt: "filter (\<lambda>c. c \<noteq> CHR ''-'') u = h" by (simp add: u h_def)
  define bs where "bs = pairBytes h"
  have bytes: "map (\<lambda>i. toUint8 (parseInt (substr h (i * 2) 2) 16)) [0..<16] = bs"
    using hex_bytes [OF _ dig] lenh by (simp add: bs_def)
  have bp: "\<forall>b\<in>set bs. b < 256" "length bs = 16"
    using pairBytes_props [OF _ dig] lenh by (simp_all add: bs_def)
  define v where "v = bytesToBigInt bs"
  have "\<forall>d\<in>set (map int bs). 0 \<le> d \<and> d < 256" using bp(1) by simp
  then have "0 \<le> v \<and> v < 256 ^ 16"
    using positional_bounds [of 256 "map int bs"] bp(2) by (simp add: v_def bytesToBigInt_positional)
  then have vb: "0 \<le> v" "v < 60 ^ 22" by simp_all
  obtain s where s: "(case encodeBigInt v None of Inl e \<Rightarrow> Inl e | Inr raw \<Rightarrow> leftPad raw 22) = Inr s"
    "length s = 22" "decodeToBigInt s = Inr v"
    using encodeBigInt_decodes [OF vb] by auto
  have enc: "encodeUUID u = Inr s"
    unfolding encodeUUID_def Let_def filt bytes FIXED_LEN_UUID_def v_def [symmetric]
    using lenh s(1) by simp
  have b2: "bigIntToBytes v (Some 16) = Inr bs"
    unfolding v_def using bp by (intro bigIntToBytes_bytes) simp_all
  have out: "concat (map (\<lambda>b. padStart 2 (CHR ''0'') (toStringRadix 16 (int b))) bs) = map toLowerChar h"
    unfolding bs_def using hex lenh by (intro pairBytes_hex) simp_all
  have "decodeUUID s = Inr (toLowerCase u)"
    using l by (simp add: decodeUUID_def s(3) b2 out slice_def h_def u toLowerCase_def hyphen_lower)
  with enc s(2) show ?thesis
    using lower_valid [OF assms] encodeUUID_lower [OF assms] by simp
qed

theorem uuid_roundtrip_witness:
  "isValidUUID ''550E8400-e29b-41d4-A716-446655440000'' \<and>
   (\<exists>s. encodeUUID ''550E8400-e29b-41d4-A716-446655440000'' = Inr s \<and> length s = 22 \<and>
        decodeUUID s = Inr ''550e8400-e29b-41d4-a716-446655440000'' \<and>
        isValidUUID ''550e8400-e29b-41d4-a716-446655440000'' \<and>
        encodeUUID ''550e8400-e29b-41d4-a716-446655440000'' = Inr s)"
proof -
  have v: "isValidUUID ''550E8400-e29b-41d4-A716-446655440000''" by code_simp
  have c: "toLowerCase ''550E8400-e29b-41d4-A716-446655440000'' = ''550e8400-e29b-41d4-a716-446655440000''"
    by code_simp
  show ?thesis using uuid_roundtrip [OF v] v unfolding c by simp
qed

section \<open>The ULID adapter\<close>

lemma length_crockford: "length crockford = 32"
  by (simp add: crockford_def)

lemma distinct_crockford: "distinct crockford"
  by (simp add: crockford_def)

lemma map32_nth: "i < 32 \<Longrightarrow> map32 (crockford ! i) = Some i"
  unfolding map32_def
  using table_nth [OF distinct_crockford, of 32 i "\<lambda>i. i"] by (simp add: length_crockford)

lemma map32_symbol:
  "c \<in> set crockford \<Longrightarrow>
   \<exists>i<32. map32 c = Some i \<and> crockford ! i = c"
  using map32_nth by (auto simp: in_set_conv_nth length_crockford)

lemma pattern_char_iff: "ulidPatternChar c = isCrockfordChar c"
proof -
  define k where "k = (of_char c :: nat)"
  have "k mod 256 = k" by (simp add: k_def)
  then have k256: "k < 256" by (metis mod_less_divisor zero_less_numeral)
  have mem: "(c = d) = (k = of_char d)" for d by (auto simp: k_def)
  have up: "(char_of (k - 32) = d) = (k = of_char d + 32)" if "97 \<le> k" for d
    using k256 that by (auto simp: char_of_eq_iff take_bit_nat_eq_self)
  show ?thesis
  proof (cases "97 \<le> k \<and> k \<le> 122")
    case True
    then have "isCrockfordChar c \<longleftrightarrow> char_of (k - 32) \<in> set crockford"
      by (simp add: isCrockfordChar_def toUpperChar_def k_def [symmetric])
    then show ?thesis
      using True by (simp add: ulidPatternChar_def crockford_def mem up)
  next
    case False
    then have "isCrockfordChar c \<longleftrightarrow> c \<in> set crockford"
      by (auto simp: isCrockfordChar_def toUpperChar_def k_def [symmetric])
    then show ?thesis
      using False by (simp add: ulidPatternChar_def crockford_def mem) linarith
  qed
qed

lemma ulidLoop_value:
  "\<forall>c\<in>set U. c \<in> set crockford \<Longrightarrow>
   ulidLoop U acc = Inr (acc * 32 ^ length U + positional 32 (map crockfordInt U))"
proof (induction U arbitrary: acc)
  case Nil
  then show ?case by simp
next
  case (Cons c U)
  then obtain i where i: "map32 c = Some i" using map32_symbol [of c] by auto
  have ci: "crockfordInt c = int i" by (simp add: crockfordInt_def i)
  show ?case
    using Cons by (simp add: i ci positional_Cons push_bit_eq_mult algebra_simps)
qed

lemma crockfordInt_bounds:
  "c \<in> set crockford \<Longrightarrow> 0 \<le> crockfordInt c \<and> crockfordInt c < 32 \<and>
     crockford ! nat (crockfordInt c) = c"
  using map32_symbol [of c] by (auto simp: crockfordInt_def)

lemma first_symbol_small: "c \<in> set ''01234567'' \<Longrightarrow> crockfordInt (toUpperChar c) < 8"
proof -
  have "list_all (\<lambda>i. toUpperChar (crockford ! i) = crockford ! i) [0..<8]"
    by (simp add: upt_rec crockford_def toUpperChar_def)
  moreover have "''01234567'' = take 8 crockford" by (simp add: crockford_def)
  moreover assume "c \<in> set ''01234567''"
  ultimately obtain i where "i < 8" "c = crockford ! i"
    "list_all (\<lambda>i. toUpperChar (crockford ! i) = crockford ! i) [0..<8]"
    by (auto simp: in_set_conv_nth length_crockford)
  then show ?thesis
    using map32_nth [of i] by (simp add: list_all_iff crockfordInt_def)
qed


lemma fold_snoc_concat: "fold (\<lambda>x acc. acc @ f x) xs a = a @ concat (map f xs)"
  by (induction xs arbitrary: a) simp_all

lemma zero_bit: "isRadixDigit 2 CHR ''0''"
  by (simp add: isRadixDigit_def digitValue_def)

lemma byte_bits:
  assumes "b < 256"
  shows "length (padStart 8 (CHR ''0'') (toStringRadix 2 (int b))) = 8"
    "\<forall>c\<in>set (padStart 8 (CHR ''0'') (toStringRadix 2 (int b))). isRadixDigit 2 c"
    "positional 2 (map digitInt (padStart 8 (CHR ''0'') (toStringRadix 2 (int b)))) = int b"
proof -
  define t where "t = toStringRadix 2 (int b)"
  have d: "\<forall>c\<in>set t. isRadixDigit 2 c" "positional 2 (map digitInt t) = int b"
    using toStringRadix_digits [of 2 "int b"] by (simp_all add: t_def)
  have "int b < int 2 ^ Suc 7" using assms by simp
  then have l: "length t \<le> 8"
    using toStringRadix_length [of 2 "int b" 7] by (simp add: t_def)
  show "length (padStart 8 (CHR ''0'') (toStringRadix 2 (int b))) = 8"
    using l by (simp add: padStart_def t_def)
  show "\<forall>c\<in>set (padStart 8 (CHR ''0'') (toStringRadix 2 (int b))). isRadixDigit 2 c"
    using d(1) zero_bit by (auto simp: padStart_def t_def)
  show "positional 2 (map digitInt (padStart 8 (CHR ''0'') (toStringRadix 2 (int b)))) = int b"
    using d(2) zero_digit by (simp add: padStart_def t_def)
qed

lemma bits_value:
  "\<forall>b\<in>set bs. b < 256 \<Longrightarrow>
   length (concat (map (\<lambda>b. padStart 8 (CHR ''0'') (toStringRadix 2 (int b))) bs)) = 8 * length bs \<and>
   (\<forall>c\<in>set (concat (map (\<lambda>b. padStart 8 (CHR ''0'') (toStringRadix 2 (int b))) bs)). isRadixDigit 2 c) \<and>
   positional 2 (map digitInt (concat (map (\<lambda>b. padStart 8 (CHR ''0'') (toStringRadix 2 (int b))) bs)))
     = positional 256 (map int bs)"
proof (induction bs)
  case Nil
  then show ?case by simp
next
  case (Cons b bs)
  have b: "b < 256" using Cons.prems by simp
  have "(2::int) ^ (8 * length bs) = (2 ^ 8) ^ length bs" by (rule power_mult)
  then have pw: "(2::int) ^ (8 * length bs) = 256 ^ length bs" by simp
  show ?case
    using Cons byte_bits [OF b] pw
    by (auto simp: positional_append positional_Cons)
qed

lemma drop5: "drop (5 + k) (a # b # c # d # e # rest) = drop k rest"
  by (simp add: eval_nat_numeral)

lemma slice_groups:
  "map (\<lambda>i. F (slice (a # b # c # d # e # rest) (i * 5) (i * 5 + 5))) [0..<Suc n] =
   F [a, b, c, d, e] # map (\<lambda>i. F (slice rest (i * 5) (i * 5 + 5))) [0..<n]"
  by (simp add: map_upt_Suc slice_def drop5 del: upt_Suc)

lemma group_value:
  assumes "\<forall>x\<in>set [a, b, c, d, e]. isRadixDigit 2 x"
  shows "parseInt [a, b, c, d, e] 2 = Some (positional 2 (map digitInt [a, b, c, d, e]))"
    "0 \<le> positional 2 (map digitInt [a, b, c, d, e])"
    "positional 2 (map digitInt [a, b, c, d, e]) < 32"
proof -
  show "parseInt [a, b, c, d, e] 2 = Some (positional 2 (map digitInt [a, b, c, d, e]))"
    using parseInt_digits [of "[a, b, c, d, e]" 2] assms by simp
  have "\<forall>x\<in>set (map digitInt [a, b, c, d, e]). 0 \<le> x \<and> x < 2"
    using assms radix_digit_value [of 2] by simp
  then have "0 \<le> positional 2 (map digitInt [a, b, c, d, e]) \<and>
      positional 2 (map digitInt [a, b, c, d, e]) < 2 ^ length (map digitInt [a, b, c, d, e])"
    by (intro positional_bounds) simp_all
  then show "0 \<le> positional 2 (map digitInt [a, b, c, d, e])"
    "positional 2 (map digitInt [a, b, c, d, e]) < 32"
    by simp_all
qed

lemma chunk_symbols:
  "length p = 5 * n \<Longrightarrow> \<forall>c\<in>set p. isRadixDigit 2 c \<Longrightarrow>
   map (\<lambda>i. indexText crockford (parseInt (slice p (i * 5) (i * 5 + 5)) 2)) [0..<n] =
   map (\<lambda>d. [crockford ! nat d]) (groups5 p)"
proof (induction p arbitrary: n rule: groups5.induct)
  case (1 a b c d e rest)
  then obtain k where n: "n = Suc k" by (cases n) auto
  have gv: "parseInt [a, b, c, d, e] 2 = Some (positional 2 (map digitInt [a, b, c, d, e]))"
    "0 \<le> positional 2 (map digitInt [a, b, c, d, e])"
    "positional 2 (map digitInt [a, b, c, d, e]) < 32"
    using group_value [of a b c d e] 1(3) by simp_all
  have hd: "indexText crockford (parseInt [a, b, c, d, e] 2) =
      [crockford ! nat (positional 2 (map digitInt [a, b, c, d, e]))]"
    unfolding gv(1) using gv(2,3) by (simp add: indexText_def length_crockford)
  have tl: "map (\<lambda>i. indexText crockford (parseInt (slice rest (i * 5) (i * 5 + 5)) 2)) [0..<k] =
      map (\<lambda>d. [crockford ! nat d]) (groups5 rest)"
    using 1 n by (intro "1.IH") simp_all
  show ?case
    unfolding n slice_groups [where F = "\<lambda>s. indexText crockford (parseInt s 2)"] hd tl
    by simp
qed simp_all

lemma groups5_props:
  "length p = 5 * n \<Longrightarrow> \<forall>c\<in>set p. isRadixDigit 2 c \<Longrightarrow>
   length (groups5 p) = n \<and> (\<forall>d\<in>set (groups5 p). 0 \<le> d \<and> d < 32) \<and>
   positional 32 (groups5 p) = positional 2 (map digitInt p)"
proof (induction p arbitrary: n rule: groups5.induct)
  case (1 a b c d e rest)
  then obtain k where n: "n = Suc k" by (cases n) auto
  have gv: "0 \<le> positional 2 (map digitInt [a, b, c, d, e])"
    "positional 2 (map digitInt [a, b, c, d, e]) < 32"
    using group_value [of a b c d e] 1(3) by simp_all
  have ih: "length (groups5 rest) = k" "\<forall>d\<in>set (groups5 rest). 0 \<le> d \<and> d < 32"
    "positional 32 (groups5 rest) = positional 2 (map digitInt rest)"
    using "1.IH" [of k] 1(2,3) n by simp_all
  have "(2::int) ^ (5 * k) = (2 ^ 5) ^ k" by (rule power_mult)
  moreover have "length rest = 5 * k" using 1(2) n by simp
  ultimately have pw: "(2::int) ^ length rest = 32 ^ k" by simp
  have split: "positional 2 (map digitInt (a # b # c # d # e # rest)) =
      positional 2 (map digitInt [a, b, c, d, e]) * 2 ^ length rest + positional 2 (map digitInt rest)"
    using positional_append [of 2 "map digitInt [a, b, c, d, e]" "map digitInt rest"] by simp
  show ?case
    unfolding split using gv ih pw n by (simp add: positional_Cons)
qed (simp_all, arith+)


text \<open>
  C5. For every valid ULID text \<open>u\<close>, 26 Crockford symbols in either case whose first symbol is
  one of 0 to 7 (a 128-bit value: the two leading bits of the 130 parsed bits are zero),
  encodeULID returns a 22-character string, and decodeULID of that string is \<open>u\<close> with its
  letters in upper case.
\<close>

theorem ulid_roundtrip:
  assumes "isValidULID u"
  shows "\<exists>s. encodeULID u = Inr s \<and> length s = 22 \<and> decodeULID s = Inr (toUpperCase u)"
proof -
  have len: "length u = 26" and cr: "\<forall>c\<in>set u. isCrockfordChar c"
    and first: "hd u \<in> set ''01234567''"
    using assms by (simp_all add: isValidULID_def list_all_iff)
  have pat: "ulidPattern u"
    using len cr by (simp add: ulidPattern_def list_all_iff pattern_char_iff)
  define U where "U = toUpperCase u"
  have Ucr: "\<forall>c\<in>set U. c \<in> set crockford"
    using cr by (simp add: U_def toUpperCase_def isCrockfordChar_def)
  have lenU: "length U = 26" using len by (simp add: U_def toUpperCase_def)
  define D where "D = map crockfordInt U"
  define v where "v = positional 32 D"
  have loop: "ulidLoop U 0 = Inr v"
    using ulidLoop_value [OF Ucr, of 0] by (simp add: v_def D_def)
  have Dbnd: "\<forall>d\<in>set D. 0 \<le> d \<and> d < 32"
    using Ucr crockfordInt_bounds by (auto simp: D_def)
  have lenD: "length D = 26" using lenU by (simp add: D_def)
  obtain c0 u' where u: "u = c0 # u'" using len by (cases u) auto
  define D' where "D' = map crockfordInt (toUpperCase u')"
  have D: "D = crockfordInt (toUpperChar c0) # D'"
    by (simp add: D_def D'_def U_def u toUpperCase_def)
  have d0: "crockfordInt (toUpperChar c0) < 8"
    using first_symbol_small [of c0] first u by simp
  have D'b: "0 \<le> positional 32 D'" "positional 32 D' < 32 ^ 25"
    using positional_bounds [of 32 D'] Dbnd lenD by (simp_all add: D)
  have "crockfordInt (toUpperChar c0) * 32 ^ 25 + positional 32 D' < 8 * 32 ^ 25 + 0"
    using D'b d0 by (intro step_less) simp_all
  moreover have "length D' = 25" using lenD by (simp add: D)
  ultimately have vlt: "v < 256 ^ 16"
    by (simp add: v_def D positional_Cons)
  have v0: "0 \<le> v" using positional_bounds [of 32 D] Dbnd by (simp add: v_def)
  have v60: "v < 60 ^ 22" using vlt by simp
  obtain s where s: "(case encodeBigInt v None of Inl e \<Rightarrow> Inl e | Inr raw \<Rightarrow> leftPad raw 22) = Inr s"
    "length s = 22" "decodeToBigInt s = Inr v"
    using encodeBigInt_decodes [OF v0 v60] by auto
  have enc: "encodeULID u = Inr s"
    unfolding encodeULID_def FIXED_LEN_ULID_def
    using pat loop s(1) by (simp add: U_def [symmetric])
  obtain bs where bs: "bigIntToBytes v (Some 16) = Inr bs" "length bs = 16"
    "\<forall>b\<in>set bs. b < 256" "bytesToBigInt bs = v"
    using bigIntToBytes_fixed [OF v0 vlt] by auto
  define bits where "bits = concat (map (\<lambda>b. padStart 8 (CHR ''0'') (toStringRadix 2 (int b))) bs)"
  have bits: "length bits = 128" "\<forall>c\<in>set bits. isRadixDigit 2 c"
    "positional 2 (map digitInt bits) = v"
    using bits_value [OF bs(3)] bs(2,4) by (simp_all add: bits_def bytesToBigInt_positional)
  define padded where "padded = padStart 130 (CHR ''0'') bits"
  have padded: "length padded = 5 * 26" "\<forall>c\<in>set padded. isRadixDigit 2 c"
    "positional 2 (map digitInt padded) = v"
    using bits zero_bit zero_digit by (auto simp: padded_def padStart_def)
  have G: "length (groups5 padded) = 26" "\<forall>d\<in>set (groups5 padded). 0 \<le> d \<and> d < 32"
    "positional 32 (groups5 padded) = v"
    using groups5_props [OF padded(1,2)] padded(3) by simp_all
  have GD: "groups5 padded = D"
    using G Dbnd lenD by (intro positional_inj [of _ _ 32]) (simp_all add: v_def)
  have "fold (\<lambda>i acc. acc @ indexText crockford (parseInt (slice padded (i * 5) (i * 5 + 5)) 2))
          [0..<26] [] = map (\<lambda>d. crockford ! nat d) D"
    unfolding fold_snoc_concat chunk_symbols [OF padded(1,2)] GD
    by (simp add: concat_map_singleton)
  also have "\<dots> = U"
    using Ucr crockfordInt_bounds by (simp add: D_def map_idI)
  finally have out: "fold (\<lambda>i acc. acc @ indexText crockford
      (parseInt (slice padded (i * 5) (i * 5 + 5)) 2)) [0..<26] [] = U" .
  have "decodeULID s = Inr U"
    using s(2) out
    by (simp add: decodeULID_def s(3) bs(1) fold_snoc_concat bits_def [symmetric]
        padded_def [symmetric])
  with enc s(2) show ?thesis by (auto simp: U_def)
qed

theorem ulid_roundtrip_witness:
  "isValidULID ''01h8j5n3Z9V8XK8E2X5PWSQ4M0'' \<and>
   (\<exists>s. encodeULID ''01h8j5n3Z9V8XK8E2X5PWSQ4M0'' = Inr s \<and> length s = 22 \<and>
        decodeULID s = Inr ''01H8J5N3Z9V8XK8E2X5PWSQ4M0'')"
proof -
  have v: "isValidULID ''01h8j5n3Z9V8XK8E2X5PWSQ4M0''" by code_simp
  have c: "toUpperCase ''01h8j5n3Z9V8XK8E2X5PWSQ4M0'' = ''01H8J5N3Z9V8XK8E2X5PWSQ4M0''"
    by code_simp
  show ?thesis using ulid_roundtrip [OF v] v unfolding c by simp
qed

text \<open>The hypothesis on the first symbol is needed: the text \<^verbatim>\<open>8\<close> followed by 25 zeros is
  the value \<open>2 ^ 128\<close>, which encodeULID encodes and decodeULID then rejects, as it does not fit
  16 bytes.\<close>

lemma ulid_beyond_128_bits:
  "encodeULID ''80000000000000000000000000'' = Inr ''FVhbRR6SAha14Uvie2bX4G'' \<and>
   decodeULID ''FVhbRR6SAha14Uvie2bX4G'' = Inl LengthExceededError"
  by code_simp

section \<open>Inputs on which the code leaves the specification\<close>

lemma decodeToBigInt_error: "decodeToBigInt t = Inl e \<Longrightarrow> \<exists>c. e = InvalidCharacterError c"
  by (auto simp: decodeToBigInt_def decodeLoop_result split: option.splits)

lemma bigIntToBytes_error:
  "bigIntToBytes v n = Inl e \<Longrightarrow> e = DomainError \<or> e = LengthExceededError"
  by (auto simp: bigIntToBytes_def Let_def split: if_splits option.splits)

lemma leftPad_error: "leftPad t n = Inl e \<Longrightarrow> e = OverflowError (length t) n"
  by (auto simp: leftPad_eq split: if_splits)

text \<open>
  C3. The specification has decodeUUID fail with a LengthMismatchError on every text that is not
  22 characters long. The code of decodeUUID has no length test (decodeULID and decodeInt64
  have theirs): the one-character text \<^verbatim>\<open>0\<close> is decoded to the nil UUID, and no text at all
  makes decodeUUID fail with a LengthMismatchError.
\<close>

theorem decodeUUID_accepts_short_text:
  "decodeUUID ''0'' = Inr ''00000000-0000-0000-0000-000000000000'' \<and>
   (\<forall>t. decodeUUID t \<noteq> Inl LengthMismatchError)"
proof -
  have "decodeUUID ''0'' = Inr ''00000000-0000-0000-0000-000000000000''"
    by code_simp
  moreover have "decodeUUID t \<noteq> Inl LengthMismatchError" for t
    using decodeToBigInt_error [of t] bigIntToBytes_error
    by (fastforce simp: decodeUUID_def Let_def split: sum.splits)
  ultimately show ?thesis by simp
qed

text \<open>
  C4. The specification has encodeUUID fail with a FormatError when the text without hyphens is
  not 32 hexadecimal characters. The code tests the length only: 32 letters \<^verbatim>\<open>z\<close> are accepted,
  every pair parses to NaN and is stored as the byte 0, and the result is the encoding of the
  nil UUID. The FormatError is raised exactly when the length without hyphens is not 32.
\<close>

theorem encodeUUID_accepts_non_hex:
  "encodeUUID ''zzzzzzzz-zzzz-zzzz-zzzz-zzzzzzzzzzzz'' = Inr ''0000000000000000000000'' \<and>
   (\<forall>u. (encodeUUID u = Inl FormatError) = (length (filter (\<lambda>c. c \<noteq> CHR ''-'') u) \<noteq> 32))"
proof -
  have "encodeUUID ''zzzzzzzz-zzzz-zzzz-zzzz-zzzzzzzzzzzz'' = Inr ''0000000000000000000000''"
    by code_simp
  moreover have "(encodeUUID u = Inl FormatError) = (length (filter (\<lambda>c. c \<noteq> CHR ''-'') u) \<noteq> 32)"
    for u
    using leftPad_error
    by (fastforce simp: encodeUUID_def Let_def encodeBigInt_None)
  ultimately show ?thesis by simp
qed

text \<open>
  C6. The specification has encoding reject negative integers with a DomainError. The code of
  encodeBigInt has no such test (bigIntToBytes has one): for -5 the loop body never runs and
  the empty string is returned, and encodeInt64 pads it to eleven zero-symbols. Neither
  function raises a DomainError on any input.
\<close>

theorem encodeBigInt_accepts_negative:
  "encodeBigInt (- 5) None = Inr [] \<and> encodeInt64 (- 5) = Inr ''00000000000'' \<and>
   (\<forall>v w. encodeBigInt v w \<noteq> Inl DomainError) \<and> (\<forall>v. encodeInt64 v \<noteq> Inl DomainError)"
proof -
  have "encodeBigInt (- 5) None = Inr []" "encodeInt64 (- 5) = Inr ''00000000000''"
    by code_simp+
  moreover have "encodeBigInt v w \<noteq> Inl DomainError" for v w
    using leftPad_error by (cases w) (fastforce simp: encodeBigInt_None encodeBigInt_Some)+
  moreover have "encodeInt64 v \<noteq> Inl DomainError" for v
    using leftPad_error by (fastforce simp: encodeInt64_def encodeBigInt_None)
  ultimately show ?thesis by simp
qed

end
